theory Spec2Isabelle
  imports Complex_Main "HOL-Library.Char_ord" "HOL-Library.Multiset" "HOL-Library.Extended_Nat"
begin

section \<open>Data model\<close>

text \<open>
  A symbol is a Python string. It is modelled as a list over any linearly ordered
  alphabet \<open>'a\<close> (the order is the code point order that \<^verbatim>\<open>sorted\<close> uses);
  concrete inputs are written as \<^typ>\<open>string\<close>, ordered by character code.
  The empty list is Python's empty string, which the code uses for "no catalyst".

  The exceptions the modelled code can raise. The message of a \<open>ValueError\<close> names
  the place that raises it; the wording of the interpreter's message is not modelled.
  \<open>RecursionError\<close> is the outcome of \<^verbatim>\<open>process_product\<close> when its recursion goes
  deeper than the depth it is given (see \<open>process_product\<close> below).
\<close>

datatype error =
    ValueError string
  | KeyError string
  | TypeError string
  | ZeroDivisionError
  | RecursionError

text \<open>One reaction: the dict that \<^verbatim>\<open>add_reaction\<close> appends, one field per key.\<close>

record 'a reaction =
  Reaction :: nat
  Layer :: nat
  Constituent_1 :: "'a list"
  Constituent_2 :: "'a list"
  Catalyst :: "'a list"
  Product :: "'a list"

text \<open>
  A pandas DataFrame of reactions. \<^verbatim>\<open>pd.DataFrame(self.reactions)\<close> takes its columns
  from the keys of the dicts, so a frame built from an empty list has no columns at
  all and every column access on it raises \<open>KeyError\<close>; a frame built from at least
  one reaction has all six columns, and filtering or concatenating keeps them.
\<close>

datatype 'a dataframe = DataFrame (has_columns: bool) (rows: "'a reaction list")

definition pd_DataFrame :: "'a reaction list \<Rightarrow> 'a dataframe" where
  "pd_DataFrame rs = DataFrame (rs \<noteq> []) rs"

text \<open>
  The fields of \<^verbatim>\<open>AutocatalyticSet\<close>. Of \<^verbatim>\<open>color_map\<close> only the keys are kept, in
  insertion order: the colours are read by the drawing code alone, but whether a key is
  present decides whether \<^verbatim>\<open>add_reaction\<close> calls the random module.
  \<^verbatim>\<open>subnetwork_dict\<close> is an association list in insertion order.
\<close>

record 'a autocatalytic_set =
  print_out :: bool
  final_product :: "'a list"
  reactions :: "'a reaction list"
  reactions_df :: "'a dataframe option"
  elements :: "'a list list"
  catalyst_probability :: rat
  switch_cat :: int
  color_map :: "'a list list"
  subnetwork_dict :: "('a list \<times> 'a dataframe) list"

section \<open>The random source\<close>

text \<open>
  The module-level generator is an infinite sequence of raw draws. Every call of a
  function of the \<^verbatim>\<open>random\<close> module reads the head of the sequence, maps it onto the
  range of the call, and leaves the tail. A theorem for every sequence is a theorem for
  every behaviour of the generator.
\<close>

type_synonym rng = "nat \<Rightarrow> nat"

definition rng_tail :: "rng \<Rightarrow> rng" where
  "rng_tail g = (\<lambda>i. g (Suc i))"

text \<open>\<^verbatim>\<open>random.randint(a, b)\<close>: an integer of \<open>[a, b]\<close>; an empty range raises.\<close>

definition random_randint :: "rng \<Rightarrow> int \<Rightarrow> int \<Rightarrow> error + (int \<times> rng)" where
  "random_randint g a b =
     (if b < a then Inl (ValueError ''empty range for randrange()'')
      else Inr (a + int (g 0 mod nat (b - a + 1)), rng_tail g))"

text \<open>
  \<^verbatim>\<open>random.random()\<close>: a float \<open>k / 2^53\<close> with \<open>0 \<le> k < 2^53\<close>. Floats are compared
  exactly, so the draw and the probability are rationals.
\<close>

definition random_random :: "rng \<Rightarrow> rat \<times> rng" where
  "random_random g = (of_nat (g 0 mod 2 ^ 53) / 2 ^ 53, rng_tail g)"

text \<open>\<^verbatim>\<open>random.choice(seq)\<close> on a non-empty sequence (the callers test for emptiness).\<close>

definition random_choice :: "rng \<Rightarrow> 'b list \<Rightarrow> 'b \<times> rng" where
  "random_choice g xs = (xs ! (g 0 mod length xs), rng_tail g)"

text \<open>
  \<^verbatim>\<open>random.choices(population, weights=w)[0]\<close>: the running sums of the weights, a
  uniform draw scaled by their total, and \<^verbatim>\<open>bisect\<close> over all but the last running
  sum. The float arithmetic of the weights is idealised as exact rational arithmetic.
\<close>

fun accumulate :: "rat \<Rightarrow> rat list \<Rightarrow> rat list" where
  "accumulate s [] = []"
| "accumulate s (w # ws) = (s + w) # accumulate (s + w) ws"

definition bisect :: "rat list \<Rightarrow> rat \<Rightarrow> nat \<Rightarrow> nat" where
  "bisect a x hi = length (takeWhile (\<lambda>c. c \<le> x) (take hi a))"

definition random_choices :: "rng \<Rightarrow> 'b list \<Rightarrow> rat list \<Rightarrow> error + ('b \<times> rng)" where
  "random_choices g population weights =
     (let cum_weights = accumulate 0 weights;
          total = (if cum_weights = [] then 0 else last cum_weights)
      in if total \<le> 0 then Inl (ValueError ''Total of weights must be greater than zero'')
         else let (u, g') = random_random g;
                  hi = length population - 1
              in Inr (population ! bisect cum_weights (u * total) hi, g'))"

section \<open>Building the reaction tree\<close>

text \<open>
  A Python set or dict built from a list: the distinct values, here in the order of
  their first occurrence. (The iteration order of a Python set of strings depends on
  the hash seed; no settled property depends on the order chosen here.)
\<close>

fun py_set :: "'b list \<Rightarrow> 'b list" where
  "py_set [] = []"
| "py_set (x # xs) = x # filter (\<lambda>y. y \<noteq> x) (py_set xs)"

text \<open>
  \<^verbatim>\<open>__init__\<close>: \<^verbatim>\<open>assign_colors\<close> shuffles the colour table (one call of the random
  module) and gives every element of the final product a colour.
\<close>

definition init_AutocatalyticSet ::
  "rng \<Rightarrow> 'a list \<Rightarrow> rat \<Rightarrow> int \<Rightarrow> bool \<Rightarrow> 'a autocatalytic_set \<times> rng" where
  "init_AutocatalyticSet g fp p s po =
     (\<lparr>print_out = po, final_product = fp, reactions = [], reactions_df = None,
       elements = map (\<lambda>c. [c]) fp, catalyst_probability = p, switch_cat = s,
       color_map = py_set (map (\<lambda>c. [c]) fp), subnetwork_dict = []\<rparr>,
      rng_tail g)"

text \<open>
  \<^verbatim>\<open>add_reaction\<close>: append the reaction, numbered by the current length of the list,
  then draw a colour for each of the four symbols that has none yet.
\<close>

fun add_colors ::
  "'a list list \<Rightarrow> 'a autocatalytic_set \<times> rng \<Rightarrow> 'a autocatalytic_set \<times> rng" where
  "add_colors [] sg = sg"
| "add_colors (e # es) (st, g) =
     (if e \<in> set (color_map st) then add_colors es (st, g)
      else add_colors es (st\<lparr>color_map := color_map st @ [e]\<rparr>, rng_tail g))"

definition add_reaction ::
  "'a autocatalytic_set \<times> rng \<Rightarrow> nat \<Rightarrow> 'a list \<Rightarrow> 'a list \<Rightarrow> 'a list \<Rightarrow> 'a list
     \<Rightarrow> 'a autocatalytic_set \<times> rng" where
  "add_reaction sg layer reactant1 reactant2 product catalyst =
     (let st = fst sg;
          reaction_number = length (reactions st);
          st' = st\<lparr>reactions := reactions st @
                  [\<lparr>Reaction = reaction_number, Layer = layer,
                    Constituent_1 = reactant1, Constituent_2 = reactant2,
                    Catalyst = catalyst, Product = product\<rparr>]\<rparr>
      in add_colors [reactant1, reactant2, product, catalyst] (st', snd sg))"

text \<open>
  \<^verbatim>\<open>split_product\<close>: a product of length 1 is a leaf. Otherwise the split index is
  drawn from \<open>[1, len - 1]\<close> (for the empty product that range is empty and
  \<^verbatim>\<open>randint\<close> raises), both halves are sorted, both are split in turn one layer
  deeper, and only then is the reaction of this product recorded, with the product as
  it was passed in.
\<close>

function split_product ::
  "('a::linorder) autocatalytic_set \<times> rng \<Rightarrow> 'a list \<Rightarrow> nat
     \<Rightarrow> error + ('a autocatalytic_set \<times> rng)" where
  "split_product sg product layer =
     (if length product = 1 then Inr sg
      else case random_randint (snd sg) 1 (int (length product) - 1) of
             Inl e \<Rightarrow> Inl e
           | Inr (split_index, g1) \<Rightarrow>
               (let reactant1 = sort (take (nat split_index) product);
                    reactant2 = sort (drop (nat split_index) product)
                in case split_product (fst sg, g1) reactant1 (layer + 1) of
                     Inl e \<Rightarrow> Inl e
                   | Inr sg2 \<Rightarrow>
                       (case split_product sg2 reactant2 (layer + 1) of
                          Inl e \<Rightarrow> Inl e
                        | Inr sg3 \<Rightarrow>
                            Inr (add_reaction sg3 layer reactant1 reactant2 product []))))"
  by pat_completeness auto

lemma random_randint_range:
  "random_randint g a b = Inr (i, g') \<Longrightarrow> a \<le> i \<and> i \<le> b"
proof -
  assume h: "random_randint g a b = Inr (i, g')"
  then have ab: "a \<le> b" and i: "i = a + int (g 0 mod nat (b - a + 1))"
    by (auto simp: random_randint_def split: if_splits)
  have "g 0 mod nat (b - a + 1) < nat (b - a + 1)"
    using ab by simp
  then show ?thesis using i ab by linarith
qed

termination split_product
  apply (relation "measure (\<lambda>(sg, product, layer). length product)")
  apply simp
  apply (auto dest!: random_randint_range)
  done

declare split_product.simps [simp del]

section \<open>Assigning catalysts\<close>

text \<open>
  \<^verbatim>\<open>calculate_weighted_probabilities\<close>: the weight of an element is its length over
  the greatest length, normalised by the sum of these quotients. \<^verbatim>\<open>max\<close> of no
  element raises, and so does the division when every element is empty. The dict that
  is returned is looked up only at elements of the list it was built from, so it is
  modelled as the function it tabulates.
\<close>

definition calculate_weighted_probabilities ::
  "'a list list \<Rightarrow> error + ('a list \<Rightarrow> rat)" where
  "calculate_weighted_probabilities elems =
     (if elems = [] then Inl (ValueError ''max() arg is an empty sequence'')
      else let max_length = Max (set (map length elems))
           in if max_length = 0 then Inl ZeroDivisionError
              else let probabilities = (\<lambda>e. of_nat (length e) / (of_nat max_length :: rat));
                       total_weight = sum_list (map probabilities elems)
                   in if total_weight = 0 then Inl ZeroDivisionError
                      else Inr (\<lambda>e. probabilities e / total_weight))"

text \<open>
  The body of the loop over the reactions. The three branches of
  \<^verbatim>\<open>assign_catalysts\<close> run the same loop and differ in two places: strategy 0 picks
  with \<^verbatim>\<open>random.choice\<close> and the others with the weighted \<^verbatim>\<open>random.choices\<close>;
  strategies 0 and 1 exclude and record the catalysts already used, strategy 2 does
  neither. The draw is compared with \<^verbatim>\<open><=\<close>, as in the source.
\<close>

definition assign_one ::
  "int \<Rightarrow> 'a list list \<Rightarrow> ('a list \<Rightarrow> rat) \<Rightarrow> rat \<Rightarrow> 'a reaction \<Rightarrow> rng \<Rightarrow> 'a list list
     \<Rightarrow> error + ('a reaction \<times> rng \<times> 'a list list)" where
  "assign_one s all_possible_catalysts weighted_catalysts p reaction g used_catalysts =
     (let (u, g1) = random_random g
      in if u \<le> p then
           (let possible_catalysts =
                  [e \<leftarrow> all_possible_catalysts.
                     e \<notin> set [Constituent_1 reaction, Constituent_2 reaction] \<and>
                     (if s = 2 then True else e \<notin> set used_catalysts)]
            in if possible_catalysts \<noteq> [] then
                 (if s = 0 then
                    (let (c, g2) = random_choice g1 possible_catalysts
                     in Inr (reaction\<lparr>Catalyst := c\<rparr>, g2, c # used_catalysts))
                  else
                    (case random_choices g1 possible_catalysts
                            (map weighted_catalysts possible_catalysts) of
                       Inl e \<Rightarrow> Inl e
                     | Inr (c, g2) \<Rightarrow>
                         Inr (reaction\<lparr>Catalyst := c\<rparr>, g2,
                              if s = 1 then c # used_catalysts else used_catalysts)))
               else Inr (reaction\<lparr>Catalyst := []\<rparr>, g1, used_catalysts))
         else Inr (reaction\<lparr>Catalyst := []\<rparr>, g1, used_catalysts))"

fun assign_loop ::
  "int \<Rightarrow> 'a list list \<Rightarrow> ('a list \<Rightarrow> rat) \<Rightarrow> rat \<Rightarrow> 'a reaction list \<Rightarrow> rng \<Rightarrow> 'a list list
     \<Rightarrow> error + ('a reaction list \<times> rng)" where
  "assign_loop s pool w p [] g used = Inr ([], g)"
| "assign_loop s pool w p (reaction # rest) g used =
     (case assign_one s pool w p reaction g used of
        Inl e \<Rightarrow> Inl e
      | Inr (reaction', g', used') \<Rightarrow>
          (case assign_loop s pool w p rest g' used' of
             Inl e \<Rightarrow> Inl e
           | Inr (rest', g'') \<Rightarrow> Inr (reaction' # rest', g'')))"

text \<open>
  \<^verbatim>\<open>assign_catalysts\<close>: the pool of candidates is computed once; the chain of
  \<^verbatim>\<open>if\<close>/\<^verbatim>\<open>elif\<close> over \<^verbatim>\<open>switch_cat\<close> has no final \<^verbatim>\<open>else\<close>.
\<close>

definition assign_catalysts ::
  "'a autocatalytic_set \<times> rng \<Rightarrow> error + ('a autocatalytic_set \<times> rng)" where
  "assign_catalysts sg =
     (let st = fst sg; g = snd sg;
          all_possible_catalysts = py_set (elements st @ map Product (reactions st))
      in if switch_cat st = 0 then
           (case assign_loop 0 all_possible_catalysts (\<lambda>e. 0) (catalyst_probability st)
                   (reactions st) g [] of
              Inl e \<Rightarrow> Inl e
            | Inr (rs, g') \<Rightarrow> Inr (st\<lparr>reactions := rs\<rparr>, g'))
         else if switch_cat st = 1 \<or> switch_cat st = 2 then
           (case calculate_weighted_probabilities all_possible_catalysts of
              Inl e \<Rightarrow> Inl e
            | Inr weighted_catalysts \<Rightarrow>
                (case assign_loop (switch_cat st) all_possible_catalysts weighted_catalysts
                        (catalyst_probability st) (reactions st) g [] of
                   Inl e \<Rightarrow> Inl e
                 | Inr (rs, g') \<Rightarrow> Inr (st\<lparr>reactions := rs\<rparr>, g')))
         else Inr (st, g))"

text \<open>\<^verbatim>\<open>build_reactions\<close>: split, assign, and only then build the DataFrame.\<close>

definition build_reactions ::
  "('a::linorder) autocatalytic_set \<times> rng \<Rightarrow> error + ('a autocatalytic_set \<times> rng)" where
  "build_reactions sg =
     (case split_product sg (final_product (fst sg)) 0 of
        Inl e \<Rightarrow> Inl e
      | Inr sg1 \<Rightarrow>
          (case assign_catalysts sg1 of
             Inl e \<Rightarrow> Inl e
           | Inr (st2, g2) \<Rightarrow>
               Inr (st2\<lparr>reactions_df := Some (pd_DataFrame (reactions st2))\<rparr>, g2)))"

section \<open>Extracting subnetworks\<close>

definition rows_with_product :: "'a reaction list \<Rightarrow> 'a list \<Rightarrow> 'a reaction list" where
  "rows_with_product rs p = [r \<leftarrow> rs. Product r = p]"

definition constituents :: "'a reaction list \<Rightarrow> 'a list list" where
  "constituents rs = map Constituent_1 rs @ map Constituent_2 rs"

text \<open>\<^verbatim>\<open>drop_duplicates\<close> keeps the first of equal rows; equality is on the six columns.\<close>

definition drop_duplicates :: "'a reaction list \<Rightarrow> 'a reaction list" where
  "drop_duplicates rs = py_set rs"

text \<open>
  The inner \<^verbatim>\<open>for reactant in reactants\<close> of \<^verbatim>\<open>get_subnetwork\<close>: the rows producing
  the reactant are appended to the subnetwork and their constituents join the next
  frontier.
\<close>

fun for_reactants ::
  "'a reaction list \<Rightarrow> 'a list list \<Rightarrow> 'a reaction list \<times> 'a list list
     \<Rightarrow> 'a reaction list \<times> 'a list list" where
  "for_reactants df [] acc = acc"
| "for_reactants df (reactant # rest) (subnetwork, next_reactants) =
     (let sub_reactions = rows_with_product df reactant
      in for_reactants df rest
           (subnetwork @ sub_reactions, next_reactants @ constituents sub_reactions))"

text \<open>
  The \<^verbatim>\<open>while reactants\<close> loop: the next frontier is what the for loop collected,
  minus every symbol that is a product of a row already in the subnetwork.
\<close>

function while_reactants ::
  "'a reaction list \<Rightarrow> 'a reaction list \<Rightarrow> 'a list list \<Rightarrow> 'a reaction list" where
  "while_reactants df subnetwork reactants =
     (if reactants = [] then subnetwork
      else let (subnetwork', next_reactants) = for_reactants df reactants (subnetwork, [])
           in while_reactants df subnetwork'
                [x \<leftarrow> py_set next_reactants. x \<notin> set (map Product subnetwork')])"
  by pat_completeness auto

text \<open>
  The loop terminates on every table. Each round either adds a product of the table to
  the products of the subnetwork, or, adding none, leaves a frontier that is disjoint
  from them, and a frontier holding no product of the table ends the loop.
\<close>

lemma for_reactants_eq:
  "for_reactants df rs (sub, nxt) =
     (sub @ concat (map (rows_with_product df) rs),
      nxt @ concat (map (\<lambda>r. constituents (rows_with_product df r)) rs))"
  by (induction rs arbitrary: sub nxt) (simp_all add: Let_def)

lemma set_py_set [simp]: "set (py_set xs) = set xs"
  by (induction xs) auto

lemma distinct_py_set [simp]: "distinct (py_set xs)"
  by (induction xs) auto

lemma Product_rows_with_product:
  "Product ` set (rows_with_product df r) = (if r \<in> Product ` set df then {r} else {})"
  by (auto simp: rows_with_product_def)

lemma seen_for_reactants:
  "Product ` set (fst (for_reactants df R (sub, nxt))) =
     Product ` set sub \<union> (set R \<inter> Product ` set df)"
  by (auto simp: for_reactants_eq rows_with_product_def)

lemma for_reactants_no_products:
  "set R \<inter> Product ` set df = {} \<Longrightarrow> for_reactants df R (sub, nxt) = (sub, nxt)"
proof -
  assume h: "set R \<inter> Product ` set df = {}"
  have "\<forall>r \<in> set R. rows_with_product df r = []"
    using h by (auto simp: rows_with_product_def filter_empty_conv)
  then have "concat (map (rows_with_product df) R) = []"
    and "concat (map (\<lambda>r. constituents (rows_with_product df r)) R) = []"
    by (auto simp: constituents_def)
  then show ?thesis by (simp add: for_reactants_eq)
qed

definition unseen_products :: "'a reaction list \<Rightarrow> 'a reaction list \<Rightarrow> nat" where
  "unseen_products df sub = card (Product ` set df - Product ` set sub)"

definition frontier_rank :: "'a reaction list \<Rightarrow> 'a reaction list \<Rightarrow> 'a list list \<Rightarrow> nat" where
  "frontier_rank df sub R =
     (if R = [] then 0
      else if set R \<inter> Product ` set df = {} then 1
      else if set R \<inter> Product ` set sub = {} then 2 else 3)"

lemma while_reactants_decreases:
  assumes "R \<noteq> []" and "(sub', nxt) = for_reactants df R (sub, [])"
  shows "((df, sub', [x \<leftarrow> py_set nxt. x \<notin> set (map Product sub')]), (df, sub, R))
           \<in> measures [\<lambda>(df, sub, R). unseen_products df sub,
                        \<lambda>(df, sub, R). frontier_rank df sub R]"
proof -
  let ?P = "Product ` set df"
  let ?seen = "Product ` set sub"
  let ?seen' = "Product ` set sub'"
  let ?R' = "[x \<leftarrow> py_set nxt. x \<notin> set (map Product sub')]"
  have seen': "?seen' = ?seen \<union> (set R \<inter> ?P)"
    using seen_for_reactants[of df R sub "[]"] assms(2)[symmetric] by simp
  have disj: "set ?R' \<inter> ?seen' = {}" by auto
  have rank': "frontier_rank df sub' ?R' \<le> 2"
    using disj unfolding frontier_rank_def by auto
  show ?thesis
  proof (cases "set R \<inter> ?P = {}")
    case True
    then have "(sub', nxt) = (sub, [])"
      using assms(2) for_reactants_no_products[of R df sub "[]"] by simp
    then show ?thesis using assms(1) True
      by (simp add: frontier_rank_def unseen_products_def)
  next
    case False
    show ?thesis
    proof (cases "set R \<inter> ?P \<subseteq> ?seen")
      case True
      then have eq: "?seen' = ?seen" using seen' by auto
      have "set R \<inter> ?seen \<noteq> {}" using False True by auto
      then have "frontier_rank df sub R = 3"
        using assms(1) False by (simp add: frontier_rank_def)
      then show ?thesis using eq rank' by (simp add: unseen_products_def)
    next
      case False
      then obtain r where r: "r \<in> set R" "r \<in> ?P" "r \<notin> ?seen" by auto
      then have "r \<in> ?P - ?seen" "r \<notin> ?P - ?seen'" using seen' by auto
      moreover have "?P - ?seen' \<subseteq> ?P - ?seen" using seen' by auto
      ultimately have "?P - ?seen' \<subset> ?P - ?seen" by auto
      then have "card (?P - ?seen') < card (?P - ?seen)"
        by (intro psubset_card_mono) auto
      then show ?thesis by (simp add: unseen_products_def)
    qed
  qed
qed

termination while_reactants
proof (relation "measures [\<lambda>(df, sub, R). unseen_products df sub,
                        \<lambda>(df, sub, R). frontier_rank df sub R]")
  show "wf (measures [\<lambda>(df, sub, R). unseen_products df sub,
                        \<lambda>(df, sub, R). frontier_rank df sub R])" by simp
qed (rule while_reactants_decreases, simp_all)

declare while_reactants.simps [simp del]

text \<open>
  \<^verbatim>\<open>get_subnetwork\<close>. The first column access raises on a frame without columns.
  \<^verbatim>\<open>reset_index\<close> renumbers the index, which the rows of the model do not carry.
\<close>

definition get_subnetwork :: "'a dataframe \<Rightarrow> 'a list \<Rightarrow> error + 'a dataframe" where
  "get_subnetwork df product =
     (if \<not> has_columns df then Inl (KeyError ''Product'')
      else let subnetwork = rows_with_product (rows df) product;
               reactants = py_set (constituents subnetwork)
           in Inr (DataFrame True
                     (drop_duplicates (while_reactants (rows df) subnetwork reactants))))"

text \<open>\<^verbatim>\<open>self.subnetwork_dict[product] = subnetwork_df\<close> and \<^verbatim>\<open>key in dict\<close>.\<close>

fun dict_set :: "('k \<times> 'v) list \<Rightarrow> 'k \<Rightarrow> 'v \<Rightarrow> ('k \<times> 'v) list" where
  "dict_set [] k v = [(k, v)]"
| "dict_set ((k', v') # d) k v = (if k' = k then (k, v) # d else (k', v') # dict_set d k v)"

definition dict_keys :: "('k \<times> 'v) list \<Rightarrow> 'k list" where
  "dict_keys d = map fst d"

text \<open>
  \<^verbatim>\<open>process_product\<close> and its loop over the constituents. (\<^verbatim>\<open>process_product_print_out\<close>
  is the same function with two \<^verbatim>\<open>print\<close> calls.) The recursion need not end on an
  arbitrary table, so it takes the depth it may still descend; at depth 0 the outcome
  is \<open>RecursionError\<close>, as the interpreter's own limit would give.
\<close>

fun process_product ::
    "nat \<Rightarrow> 'a autocatalytic_set \<Rightarrow> 'a list \<Rightarrow> error + 'a autocatalytic_set"
  and process_constituents ::
    "nat \<Rightarrow> 'a autocatalytic_set \<Rightarrow> 'a list list \<Rightarrow> error + 'a autocatalytic_set" where
  "process_product 0 st product = Inl RecursionError"
| "process_product (Suc d) st product =
     (case reactions_df st of
        None \<Rightarrow> Inl (TypeError ''NoneType object is not subscriptable'')
      | Some df \<Rightarrow>
          (case get_subnetwork df product of
             Inl e \<Rightarrow> Inl e
           | Inr subnetwork_df \<Rightarrow>
               if rows subnetwork_df = [] then Inr st
               else let st' = (if product \<noteq> final_product st
                               then st\<lparr>subnetwork_dict :=
                                        dict_set (subnetwork_dict st) product subnetwork_df\<rparr>
                               else st)
                    in process_constituents d st'
                         (py_set (constituents (rows subnetwork_df)))))"
| "process_constituents d st [] = Inr st"
| "process_constituents d st (constituent # rest) =
     (if constituent \<in> set (dict_keys (subnetwork_dict st))
      then process_constituents d st rest
      else case process_product d st constituent of
             Inl e \<Rightarrow> Inl e
           | Inr st' \<Rightarrow> process_constituents d st' rest)"

definition extract_subnetworks ::
  "nat \<Rightarrow> 'a autocatalytic_set \<Rightarrow> error + 'a autocatalytic_set" where
  "extract_subnetworks depth st = process_product depth st (final_product st)"

section \<open>The autocatalysis predicate\<close>

definition is_autocatalytic_subnetwork :: "'a dataframe \<Rightarrow> bool \<Rightarrow> error + bool" where
  "is_autocatalytic_subnetwork subnetwork_df check_for_catalysts =
     (if \<not> has_columns subnetwork_df then Inl (KeyError ''Product'')
      else let products = py_set (map Product (rows subnetwork_df));
               constituents_1 = py_set (map Constituent_1 (rows subnetwork_df));
               constituents_2 = py_set (map Constituent_2 (rows subnetwork_df));
               all_elements = py_set (products @ constituents_1 @ constituents_2);
               catalysts = [c \<leftarrow> py_set (map Catalyst (rows subnetwork_df)). c \<noteq> []]
           in if check_for_catalysts \<and> catalysts = [] then Inr False
              else if [c \<leftarrow> catalysts. c \<notin> set all_elements] \<noteq> [] then Inr False
              else Inr True)"

section \<open>The analysis over many trials\<close>

text \<open>
  \<^verbatim>\<open>switch_aut_prob\<close> is compared with \<^verbatim>\<open>True\<close> and with \<^verbatim>\<open>"square"\<close> and tested for
  truth, so it is a Python value. \<^verbatim>\<open>1 == True\<close> holds in Python.
\<close>

datatype pyval = PyBool bool | PyInt int | PyStr string | PyNone

fun py_eq_True :: "pyval \<Rightarrow> bool" where
  "py_eq_True (PyBool b) = b"
| "py_eq_True (PyInt i) = (i = 1)"
| "py_eq_True (PyStr s) = False"
| "py_eq_True PyNone = False"

fun py_truthy :: "pyval \<Rightarrow> bool" where
  "py_truthy (PyBool b) = b"
| "py_truthy (PyInt i) = (i \<noteq> 0)"
| "py_truthy (PyStr s) = (s \<noteq> [])"
| "py_truthy PyNone = False"

record 'a assembly_analysis =
  a_final_product :: "'a list"
  a_n :: nat
  a_catalyst_probability :: rat
  a_switch_cat :: int
  switch_aut_prob :: pyval
  autocatalytic_subnetwork_counts :: "nat list"
  subnetwork_counts :: "nat list"
  max_depths :: "nat list"
  a_print_out :: bool

text \<open>\<^verbatim>\<open>AssemblyAnalysis.__init__\<close> stores its arguments and checks none of them.\<close>

definition init_AssemblyAnalysis ::
  "'a list \<Rightarrow> nat \<Rightarrow> rat \<Rightarrow> int \<Rightarrow> pyval \<Rightarrow> bool \<Rightarrow> 'a assembly_analysis" where
  "init_AssemblyAnalysis fp n p s mode po =
     \<lparr>a_final_product = fp, a_n = n, a_catalyst_probability = p, a_switch_cat = s,
      switch_aut_prob = mode, autocatalytic_subnetwork_counts = [],
      subnetwork_counts = [], max_depths = [], a_print_out = po\<rparr>"

text \<open>\<^verbatim>\<open>process_autocatalytic_set\<close>: its two loops, then the function.\<close>

fun max_layer_loop :: "'a reaction list \<Rightarrow> nat \<Rightarrow> nat" where
  "max_layer_loop [] max_depth = max_depth"
| "max_layer_loop (reaction # rest) max_depth =
     (let layer = Layer reaction
      in if layer > max_depth then max_layer_loop rest layer
         else max_layer_loop rest max_depth)"

fun count_subnetworks ::
  "('a list \<times> 'a dataframe) list \<Rightarrow> nat \<times> nat \<Rightarrow> error + (nat \<times> nat)" where
  "count_subnetworks [] counts = Inr counts"
| "count_subnetworks ((product, subnetwork_df) # rest)
       (subnetwork_count, autocatalytic_subnetwork_count) =
     (case is_autocatalytic_subnetwork subnetwork_df True of
        Inl e \<Rightarrow> Inl e
      | Inr b \<Rightarrow>
          count_subnetworks rest
            (subnetwork_count + 1,
             if b then autocatalytic_subnetwork_count + 1
             else autocatalytic_subnetwork_count))"

definition process_autocatalytic_set ::
  "nat \<Rightarrow> 'a autocatalytic_set \<Rightarrow> error + ('a autocatalytic_set \<times> nat list)" where
  "process_autocatalytic_set depth autocatalytic_set =
     (case extract_subnetworks depth autocatalytic_set of
        Inl e \<Rightarrow> Inl e
      | Inr st \<Rightarrow>
          (let max_depth = max_layer_loop (reactions st) 0 + 1
           in case count_subnetworks (subnetwork_dict st) (0, 0) of
                Inl e \<Rightarrow> Inl e
              | Inr (subnetwork_count, autocatalytic_subnetwork_count) \<Rightarrow>
                  Inr (st, [subnetwork_count, autocatalytic_subnetwork_count, max_depth])))"

text \<open>Unpacking a returned tuple into two or into three variables.\<close>

fun unpack2 :: "nat list \<Rightarrow> error + (nat \<times> nat)" where
  "unpack2 [a, b] = Inr (a, b)"
| "unpack2 (a # b # c # rest) = Inl (ValueError ''too many values to unpack (expected 2)'')"
| "unpack2 t = Inl (ValueError ''not enough values to unpack (expected 2)'')"

fun unpack3 :: "nat list \<Rightarrow> error + (nat \<times> nat \<times> nat)" where
  "unpack3 [a, b, c] = Inr (a, b, c)"
| "unpack3 (a # b # c # d # rest) = Inl (ValueError ''too many values to unpack (expected 3)'')"
| "unpack3 t = Inl (ValueError ''not enough values to unpack (expected 3)'')"

text \<open>
  What one trial of \<^verbatim>\<open>find_assembly_list\<close> appends to \<^verbatim>\<open>assembly_indices\<close>, from the
  trial's depth, whole-set flag and count of autocatalytic subnetworks.
\<close>

definition contribution :: "pyval \<Rightarrow> nat \<Rightarrow> nat \<Rightarrow> nat \<Rightarrow> nat list" where
  "contribution mode max_depth whole_set_autocatalytic autocatalytic_subnetwork_count =
     (if py_eq_True mode then
        replicate (1 + whole_set_autocatalytic + autocatalytic_subnetwork_count) max_depth
      else if mode = PyStr ''square'' then
        replicate ((1 + whole_set_autocatalytic + autocatalytic_subnetwork_count) ^ 2) max_depth
      else [max_depth])"

text \<open>
  The loop of \<^verbatim>\<open>find_assembly_list\<close> over \<^verbatim>\<open>range(self.n)\<close>; the first argument is the
  depth allowed to \<^verbatim>\<open>process_product\<close>, the second the number of trials left.
\<close>

fun list_trials ::
  "nat \<Rightarrow> nat \<Rightarrow> rng \<Rightarrow> ('a::linorder) assembly_analysis \<Rightarrow> nat list
     \<Rightarrow> error + (nat list \<times> 'a assembly_analysis \<times> rng)" where
  "list_trials depth 0 g a assembly_indices = Inr (assembly_indices, a, g)"
| "list_trials depth (Suc k) g a assembly_indices =
     (case build_reactions
             (init_AutocatalyticSet g (a_final_product a) (a_catalyst_probability a)
                (a_switch_cat a) (a_print_out a)) of
        Inl e \<Rightarrow> Inl e
      | Inr (built, g1) \<Rightarrow>
          (case process_autocatalytic_set depth built of
             Inl e \<Rightarrow> Inl e
           | Inr (st, t) \<Rightarrow>
               (case unpack3 t of
                  Inl e \<Rightarrow> Inl e
                | Inr (subnetwork_count, autocatalytic_subnetwork_count, max_depth) \<Rightarrow>
                    (case reactions_df st of
                       None \<Rightarrow> Inl (TypeError ''NoneType object is not subscriptable'')
                     | Some df \<Rightarrow>
                         (case is_autocatalytic_subnetwork df True of
                            Inl e \<Rightarrow> Inl e
                          | Inr b \<Rightarrow>
                              (let whole_set_autocatalytic = (if b then 1 else 0);
                                   a' = a\<lparr>autocatalytic_subnetwork_counts :=
                                            autocatalytic_subnetwork_counts a @
                                              [autocatalytic_subnetwork_count],
                                          subnetwork_counts :=
                                            subnetwork_counts a @ [subnetwork_count],
                                          max_depths := max_depths a @ [max_depth]\<rparr>
                               in list_trials depth k g1 a'
                                    (assembly_indices @
                                       contribution (switch_aut_prob a) max_depth
                                         whole_set_autocatalytic
                                         autocatalytic_subnetwork_count)))))))"

text \<open>
  \<^verbatim>\<open>find_assembly_list\<close> with \<^verbatim>\<open>return_all_counts\<close>: the contributions, and the three
  lists of per-trial values held by the analysis.
\<close>

definition find_assembly_list ::
  "nat \<Rightarrow> rng \<Rightarrow> ('a::linorder) assembly_analysis
     \<Rightarrow> error + (nat list \<times> nat list \<times> nat list \<times> nat list)" where
  "find_assembly_list depth g a =
     (case list_trials depth (a_n a) g a [] of
        Inl e \<Rightarrow> Inl e
      | Inr (assembly_indices, a', g') \<Rightarrow>
          Inr (assembly_indices, subnetwork_counts a',
               autocatalytic_subnetwork_counts a', max_depths a'))"

text \<open>
  \<^verbatim>\<open>find_assembly_index\<close>: the same trial, but the tuple is unpacked into two
  variables. The minimum of no index is \<^verbatim>\<open>float('inf')\<close>.
\<close>

fun index_trials ::
  "nat \<Rightarrow> nat \<Rightarrow> rng \<Rightarrow> ('a::linorder) assembly_analysis \<Rightarrow> nat list
     \<Rightarrow> error + (nat list \<times> 'a assembly_analysis \<times> rng)" where
  "index_trials depth 0 g a assembly_indices = Inr (assembly_indices, a, g)"
| "index_trials depth (Suc k) g a assembly_indices =
     (case build_reactions
             (init_AutocatalyticSet g (a_final_product a) (a_catalyst_probability a)
                (a_switch_cat a) (a_print_out a)) of
        Inl e \<Rightarrow> Inl e
      | Inr (built, g1) \<Rightarrow>
          (case process_autocatalytic_set depth built of
             Inl e \<Rightarrow> Inl e
           | Inr (st, t) \<Rightarrow>
               (case unpack2 t of
                  Inl e \<Rightarrow> Inl e
                | Inr (subnetwork_count, max_depth) \<Rightarrow>
                    (let a' = a\<lparr>autocatalytic_subnetwork_counts :=
                                  autocatalytic_subnetwork_counts a @ [subnetwork_count]\<rparr>
                     in index_trials depth k g1 a'
                          (if py_truthy (switch_aut_prob a)
                           then assembly_indices @ replicate subnetwork_count max_depth
                           else assembly_indices @ [max_depth])))))"

definition find_assembly_index ::
  "nat \<Rightarrow> rng \<Rightarrow> ('a::linorder) assembly_analysis \<Rightarrow> error + enat" where
  "find_assembly_index depth g a =
     (case index_trials depth (a_n a) g a [] of
        Inl e \<Rightarrow> Inl e
      | Inr (assembly_indices, a', g') \<Rightarrow>
          if assembly_indices = [] then Inr \<infinity>
          else Inr (enat (Min (set assembly_indices))))"

definition same_config :: "'a autocatalytic_set \<Rightarrow> 'a autocatalytic_set \<Rightarrow> bool" where
  "same_config st st' \<longleftrightarrow>
     final_product st' = final_product st \<and> elements st' = elements st \<and>
     switch_cat st' = switch_cat st \<and> catalyst_probability st' = catalyst_probability st \<and>
     print_out st' = print_out st \<and> subnetwork_dict st' = subnetwork_dict st \<and>
     reactions_df st' = reactions_df st"

lemma same_config_refl [simp]: "same_config st st"
  by (simp add: same_config_def)

lemma same_config_trans: "same_config a b \<Longrightarrow> same_config b c \<Longrightarrow> same_config a c"
  by (simp add: same_config_def)

lemma add_colors_keeps:
  "reactions (fst (add_colors es sg)) = reactions (fst sg) \<and>
   same_config (fst sg) (fst (add_colors es sg))"
proof (induction es sg rule: add_colors.induct)
  case (1 sg)
  then show ?case by simp
next
  case (2 e es st g)
  then show ?case by (auto simp: same_config_def)
qed

lemma add_reaction_reactions:
  "reactions (fst (add_reaction sg layer r1 r2 product c)) =
     reactions (fst sg) @
       [\<lparr>Reaction = length (reactions (fst sg)), Layer = layer, Constituent_1 = r1,
         Constituent_2 = r2, Catalyst = c, Product = product\<rparr>]"
  by (simp add: add_reaction_def Let_def add_colors_keeps)

lemma add_reaction_same_config:
  "same_config (fst sg) (fst (add_reaction sg layer r1 r2 product c))"
proof -
  let ?st' = "(fst sg)\<lparr>reactions := reactions (fst sg) @
       [\<lparr>Reaction = length (reactions (fst sg)), Layer = layer, Constituent_1 = r1,
         Constituent_2 = r2, Catalyst = c, Product = product\<rparr>]\<rparr>"
  have "same_config ?st' (fst (add_colors [r1, r2, product, c] (?st', snd sg)))"
    using add_colors_keeps[of "[r1, r2, product, c]" "(?st', snd sg)"] by simp
  moreover have "same_config (fst sg) ?st'" by (simp add: same_config_def)
  ultimately show ?thesis
    unfolding add_reaction_def Let_def by (rule same_config_trans[rotated])
qed

lemma random_randint_ok:
  "a \<le> b \<Longrightarrow> \<exists>i. random_randint g a b = Inr (i, rng_tail g) \<and> a \<le> i \<and> i \<le> b"
proof -
  assume ab: "a \<le> b"
  have "g 0 mod nat (b - a + 1) < nat (b - a + 1)" using ab by simp
  then have "a + int (g 0 mod nat (b - a + 1)) \<le> b" using ab by linarith
  then show ?thesis using ab by (simp add: random_randint_def)
qed

text \<open>
  What a call of \<^verbatim>\<open>split_product\<close> appends: rows without catalyst, whose sorted,
  non-empty constituents make up the product; the row of the product itself comes last
  and every earlier row has a sorted product; a constituent of two or more characters
  is the product of some row.
\<close>

definition tree_rows :: "('a::linorder) list \<Rightarrow> nat \<Rightarrow> 'a reaction list \<Rightarrow> bool" where
  "tree_rows product layer new \<longleftrightarrow>
     (\<forall>r\<in>set new. Catalyst r = [] \<and> Constituent_1 r \<noteq> [] \<and> Constituent_2 r \<noteq> [] \<and>
        mset (Constituent_1 r @ Constituent_2 r) = mset (Product r) \<and>
        length (Product r) \<le> length product \<and>
        sorted (Constituent_1 r) \<and> sorted (Constituent_2 r)) \<and>
     (length product = 1 \<longrightarrow> new = []) \<and>
     (2 \<le> length product \<longrightarrow> new \<noteq> [] \<and> Product (last new) = product \<and> Layer (last new) = layer) \<and>
     (\<forall>r\<in>set (butlast new). sorted (Product r)) \<and>
     (\<forall>r\<in>set new. \<forall>c. (c = Constituent_1 r \<or> c = Constituent_2 r) \<and> 2 \<le> length c \<longrightarrow>
        (\<exists>r'\<in>set new. Product r' = c))"

lemma tree_rows_leaf: "length product = 1 \<Longrightarrow> tree_rows product layer []"
  by (simp add: tree_rows_def)

lemma tree_rows_sorted:
  assumes "tree_rows p l new" "sorted p" "r \<in> set new"
  shows "sorted (Product r)"
proof (cases "r \<in> set (butlast new)")
  case True
  then show ?thesis using assms(1) by (simp add: tree_rows_def)
next
  case False
  have ne: "new \<noteq> []" using assms(3) by auto
  then have "r = last new"
    using False assms(3) by (metis append_butlast_last_id Un_iff empty_iff insert_iff list.set(1) list.set(2) set_append)
  moreover have "2 \<le> length p"
  proof -
    have "Product r \<noteq> []" "length (Product r) \<le> length p"
      using assms(1,3) unfolding tree_rows_def by fastforce+
    then have "1 \<le> length p" by (cases "Product r") auto
    moreover have "length p \<noteq> 1" using assms(1) ne by (auto simp: tree_rows_def)
    ultimately show ?thesis by linarith
  qed
  ultimately show ?thesis using assms(1,2) by (simp add: tree_rows_def)
qed


lemma tree_rows_node:
  assumes t1: "tree_rows r1 (Suc l) new1" and t2: "tree_rows r2 (Suc l) new2"
    and r1: "r1 = sort (take i p)" and r2: "r2 = sort (drop i p)"
    and i: "0 < i" "i < length p"
  shows "tree_rows p l (new1 @ new2 @
           [\<lparr>Reaction = k, Layer = l, Constituent_1 = r1, Constituent_2 = r2,
             Catalyst = [], Product = p\<rparr>])"
proof -
  let ?root = "\<lparr>Reaction = k, Layer = l, Constituent_1 = r1, Constituent_2 = r2,
             Catalyst = [], Product = p\<rparr>"
  have len1: "length r1 = i" and len2: "length r2 = length p - i"
    using i by (simp_all add: r1 r2)
  have ne: "r1 \<noteq> []" "r2 \<noteq> []" using len1 len2 i by auto
  have "mset (take i p) + mset (drop i p) = mset p"
    by (metis mset_append append_take_drop_id)
  then have ms: "mset (r1 @ r2) = mset p"
    by (simp add: r1 r2)
  have s1: "\<forall>r\<in>set new1. sorted (Product r)"
    using tree_rows_sorted[OF t1] by (simp add: r1)
  have s2: "\<forall>r\<in>set new2. sorted (Product r)"
    using tree_rows_sorted[OF t2] by (simp add: r2)
  have a1: "\<forall>r\<in>set new1. length (Product r) \<le> length p"
    using t1 len1 i unfolding tree_rows_def by fastforce
  have a2: "\<forall>r\<in>set new2. length (Product r) \<le> length p"
    using t2 len2 i unfolding tree_rows_def by fastforce
  have c1: "2 \<le> length r1 \<Longrightarrow> \<exists>r'\<in>set new1. Product r' = r1"
    using t1 unfolding tree_rows_def by (metis last_in_set)
  have c2: "2 \<le> length r2 \<Longrightarrow> \<exists>r'\<in>set new2. Product r' = r2"
    using t2 unfolding tree_rows_def by (metis last_in_set)
  have A: "\<forall>r\<in>set (new1 @ new2 @ [?root]).
        Catalyst r = [] \<and> Constituent_1 r \<noteq> [] \<and> Constituent_2 r \<noteq> [] \<and>
        mset (Constituent_1 r @ Constituent_2 r) = mset (Product r) \<and>
        length (Product r) \<le> length p \<and>
        sorted (Constituent_1 r) \<and> sorted (Constituent_2 r)"
    using t1 t2 a1 a2 ne ms unfolding tree_rows_def by (auto simp: r1 r2)
  have B: "length p \<noteq> 1" using i by auto
  have D: "\<forall>r\<in>set (butlast (new1 @ new2 @ [?root])). sorted (Product r)"
    using s1 s2 by (auto simp: butlast_append)
  have E: "\<forall>r\<in>set (new1 @ new2 @ [?root]). \<forall>c.
        (c = Constituent_1 r \<or> c = Constituent_2 r) \<and> 2 \<le> length c \<longrightarrow>
        (\<exists>r'\<in>set (new1 @ new2 @ [?root]). Product r' = c)"
  proof (intro ballI allI impI)
    fix r c
    assume r: "r \<in> set (new1 @ new2 @ [?root])"
      and c: "(c = Constituent_1 r \<or> c = Constituent_2 r) \<and> 2 \<le> length c"
    consider "r \<in> set new1" | "r \<in> set new2" | "r = ?root" using r by auto
    then show "\<exists>r'\<in>set (new1 @ new2 @ [?root]). Product r' = c"
    proof cases
      case 1
      then have "\<exists>r'\<in>set new1. Product r' = c"
        using t1 c unfolding tree_rows_def by blast
      then show ?thesis by auto
    next
      case 2
      then have "\<exists>r'\<in>set new2. Product r' = c"
        using t2 c unfolding tree_rows_def by blast
      then show ?thesis by auto
    next
      case 3
      then have "c = r1 \<or> c = r2" using c by auto
      then show ?thesis using c c1 c2 by auto
    qed
  qed
  show ?thesis
    unfolding tree_rows_def using A B D E by simp
qed


lemma split_product_empty:
  "split_product sg [] layer = Inl (ValueError ''empty range for randrange()'')"
  by (subst split_product.simps[of sg "[]" layer])
     (simp add: random_randint_def)

lemma split_product_rows:
  "product \<noteq> [] \<Longrightarrow>
     \<exists>sg' new. split_product sg product layer = Inr sg' \<and>
       reactions (fst sg') = reactions (fst sg) @ new \<and>
       same_config (fst sg) (fst sg') \<and> tree_rows product layer new"
proof (induction "length product" arbitrary: sg product layer rule: less_induct)
  case less
  show ?case
  proof (cases "length product = 1")
    case True
    then have "split_product sg product layer = Inr sg"
      by (subst split_product.simps[of sg product layer]) simp
    then show ?thesis using tree_rows_leaf[OF True] by auto
  next
    case False
    moreover have "length product \<noteq> 0" using less.prems by simp
    ultimately have len: "2 \<le> length product" by linarith
    then obtain i where rr: "random_randint (snd sg) 1 (int (length product) - 1)
          = Inr (i, rng_tail (snd sg))" and i: "1 \<le> i" "i \<le> int (length product) - 1"
      using random_randint_ok[of 1 "int (length product) - 1" "snd sg"] by auto
    define r1 where "r1 = sort (take (nat i) product)"
    define r2 where "r2 = sort (drop (nat i) product)"
    have ni: "0 < nat i" "nat i < length product" using i by auto
    have "length r1 = nat i" "length r2 = length product - nat i"
      using ni by (simp_all add: r1_def r2_def)
    then have l1: "length r1 < length product" "r1 \<noteq> []"
      and l2: "length r2 < length product" "r2 \<noteq> []"
      using ni by auto
    obtain sg2 new1 where c1: "split_product (fst sg, rng_tail (snd sg)) r1 (Suc layer) = Inr sg2"
      and n1: "reactions (fst sg2) = reactions (fst sg) @ new1"
      and k1: "same_config (fst sg) (fst sg2)" and t1: "tree_rows r1 (Suc layer) new1"
      using less.hyps[OF l1(1) l1(2), of "(fst sg, rng_tail (snd sg))" "Suc layer"] by auto
    obtain sg3 new2 where c2: "split_product sg2 r2 (Suc layer) = Inr sg3"
      and n2: "reactions (fst sg3) = reactions (fst sg2) @ new2"
      and k2: "same_config (fst sg2) (fst sg3)" and t2: "tree_rows r2 (Suc layer) new2"
      using less.hyps[OF l2(1) l2(2), of sg2 "Suc layer"] by auto
    let ?sg' = "add_reaction sg3 layer r1 r2 product []"
    have res: "split_product sg product layer = Inr ?sg'"
      using False rr c1 c2 unfolding r1_def r2_def
      by (subst split_product.simps[of sg product layer])
         (simp add: Let_def)
    have rows: "reactions (fst ?sg') = reactions (fst sg) @ (new1 @ new2 @
        [\<lparr>Reaction = length (reactions (fst sg3)), Layer = layer, Constituent_1 = r1,
          Constituent_2 = r2, Catalyst = [], Product = product\<rparr>])"
      by (simp add: add_reaction_reactions n1 n2)
    have cfg: "same_config (fst sg) (fst ?sg')"
      using k1 k2 add_reaction_same_config[of sg3 layer r1 r2 product "[]"]
      by (blast intro: same_config_trans)
    have "tree_rows product layer (new1 @ new2 @
        [\<lparr>Reaction = length (reactions (fst sg3)), Layer = layer, Constituent_1 = r1,
          Constituent_2 = r2, Catalyst = [], Product = product\<rparr>])"
      using tree_rows_node[OF t1 t2 r1_def r2_def ni] .
    then show ?thesis using res rows cfg by blast
  qed
qed

text \<open>Catalyst assignment changes the catalyst of a row and nothing else.\<close>

definition uncatalysed :: "'a reaction \<Rightarrow> 'a reaction" where
  "uncatalysed r = r\<lparr>Catalyst := []\<rparr>"

lemma uncatalysed_fields [simp]:
  "Product (uncatalysed r) = Product r"
  "Constituent_1 (uncatalysed r) = Constituent_1 r"
  "Constituent_2 (uncatalysed r) = Constituent_2 r"
  "Layer (uncatalysed r) = Layer r"
  "Reaction (uncatalysed r) = Reaction r"
  "Catalyst (uncatalysed r) = []"
  "uncatalysed (r\<lparr>Catalyst := c\<rparr>) = uncatalysed r"
  by (simp_all add: uncatalysed_def)

lemma uncatalysed_id: "Catalyst r = [] \<Longrightarrow> uncatalysed r = r"
  by (simp add: uncatalysed_def)

lemma assign_one_uncatalysed:
  "assign_one s pool w p r g used = Inr (r', g', used') \<Longrightarrow> uncatalysed r' = uncatalysed r"
  by (auto simp: assign_one_def Let_def split: prod.splits if_splits sum.splits)

lemma assign_loop_uncatalysed:
  "assign_loop s pool w p rs g used = Inr (rs', g') \<Longrightarrow>
     map uncatalysed rs' = map uncatalysed rs"
proof (induction rs arbitrary: g used rs' g')
  case Nil
  then show ?case by simp
next
  case (Cons r rs)
  then show ?case
    by (auto split: sum.splits prod.splits dest: assign_one_uncatalysed)
qed

lemma accumulate_Nil [simp]: "accumulate s ws = [] \<longleftrightarrow> ws = []"
  by (cases ws) auto

lemma accumulate_last:
  "ws \<noteq> [] \<Longrightarrow> last (accumulate s ws) = s + sum_list ws"
proof (induction ws arbitrary: s)
  case Nil
  then show ?case by simp
next
  case (Cons a ws)
  then show ?case by (cases "ws = []") (simp_all add: add.assoc)
qed

lemma sum_list_pos_rat:
  "ws \<noteq> [] \<Longrightarrow> \<forall>x\<in>set ws. (0::rat) < x \<Longrightarrow> 0 < sum_list ws"
  by (induction ws) (auto intro: add_pos_nonneg sum_list_nonneg less_imp_le)

lemma random_choices_ok:
  assumes "ws \<noteq> []" "\<forall>x\<in>set ws. 0 < x"
  shows "\<exists>c. random_choices g pop ws = Inr (c, rng_tail g)"
  using assms sum_list_pos_rat[OF assms]
  by (simp add: random_choices_def Let_def accumulate_last random_random_def not_le)

lemma assign_one_ok:
  assumes "s = 0 \<or> (\<forall>e\<in>set pool. 0 < w e)"
  shows "\<exists>r' g' used'. assign_one s pool w p r g used = Inr (r', g', used')"
proof -
  define poss where "poss = [e \<leftarrow> pool. e \<notin> set [Constituent_1 r, Constituent_2 r] \<and>
                     (if s = 2 then True else e \<notin> set used)]"
  obtain u g1 where rr: "random_random g = (u, g1)" by (cases "random_random g")
  obtain c0 g0 where rc: "random_choice g1 poss = (c0, g0)" by (cases "random_choice g1 poss")
  have eq: "assign_one s pool w p r g used =
     (if u \<le> p then
        (if poss \<noteq> [] then
           (if s = 0 then Inr (r\<lparr>Catalyst := c0\<rparr>, g0, c0 # used)
            else (case random_choices g1 poss (map w poss) of
                    Inl e \<Rightarrow> Inl e
                  | Inr (c, g2) \<Rightarrow>
                      Inr (r\<lparr>Catalyst := c\<rparr>, g2, if s = 1 then c # used else used)))
         else Inr (r\<lparr>Catalyst := []\<rparr>, g1, used))
      else Inr (r\<lparr>Catalyst := []\<rparr>, g1, used))"
    unfolding assign_one_def Let_def rr prod.case poss_def[symmetric] rc ..
  show ?thesis
  proof (cases "u \<le> p \<and> poss \<noteq> [] \<and> s \<noteq> 0")
    case True
    then have "\<forall>x\<in>set (map w poss). 0 < x" using assms by (auto simp: poss_def)
    then obtain c where "random_choices g1 poss (map w poss) = Inr (c, rng_tail g1)"
      using True random_choices_ok[of "map w poss" g1 poss] by auto
    then show ?thesis using True by (simp add: eq)
  next
    case False
    then show ?thesis by (auto simp: eq)
  qed
qed

lemma assign_loop_ok:
  assumes "s = 0 \<or> (\<forall>e\<in>set pool. 0 < w e)"
  shows "\<exists>rs' g'. assign_loop s pool w p rs g used = Inr (rs', g')"
proof (induction rs arbitrary: g used)
  case Nil
  then show ?case by simp
next
  case (Cons r rs)
  obtain r' g1 used1 where "assign_one s pool w p r g used = Inr (r', g1, used1)"
    using assign_one_ok[OF assms, of p r g used] by blast
  moreover obtain rs' g2 where "assign_loop s pool w p rs g1 used1 = Inr (rs', g2)"
    using Cons.IH by blast
  ultimately show ?case by simp
qed

lemma calculate_weighted_probabilities_ok:
  assumes ne: "pool \<noteq> []" and pos: "\<forall>e\<in>set pool. e \<noteq> []"
  shows "\<exists>w. calculate_weighted_probabilities pool = Inr w \<and> (\<forall>e\<in>set pool. 0 < w e)"
proof -
  let ?m = "Max (set (map length pool))"
  obtain e0 where e0: "e0 \<in> set pool" using ne by (cases pool) auto
  have "length e0 \<le> ?m" using e0 by (intro Max_ge) auto
  moreover have "0 < length e0" using pos e0 by auto
  ultimately have m: "0 < ?m" by linarith
  let ?pr = "\<lambda>e. of_nat (length e) / (of_nat ?m :: rat)"
  have prpos: "\<forall>e\<in>set pool. 0 < ?pr e" using pos m by auto
  then have tot: "0 < sum_list (map ?pr pool)"
    using ne by (intro sum_list_pos_rat) auto
  have "calculate_weighted_probabilities pool = Inr (\<lambda>e. ?pr e / sum_list (map ?pr pool))"
    using ne m tot by (simp add: calculate_weighted_probabilities_def Let_def)
  moreover have "\<forall>e\<in>set pool. 0 < ?pr e / sum_list (map ?pr pool)"
    using prpos tot by (blast intro: divide_pos_pos)
  ultimately show ?thesis by blast
qed

lemma py_set_Nil [simp]: "py_set xs = [] \<longleftrightarrow> xs = []"
  by (cases xs) auto

lemma assign_catalysts_unknown:
  "switch_cat (fst sg) \<noteq> 0 \<Longrightarrow> switch_cat (fst sg) \<noteq> 1 \<Longrightarrow> switch_cat (fst sg) \<noteq> 2 \<Longrightarrow>
     assign_catalysts sg = Inr sg"
  by (simp add: assign_catalysts_def Let_def)

lemma assign_catalysts_ok:
  assumes "elements st \<noteq> []" "\<forall>e\<in>set (elements st). e \<noteq> []"
    and "\<forall>r\<in>set (reactions st). Product r \<noteq> []"
  shows "\<exists>rs g'. assign_catalysts (st, g) = Inr (st\<lparr>reactions := rs\<rparr>, g') \<and>
           map uncatalysed rs = map uncatalysed (reactions st)"
proof -
  let ?pool = "py_set (elements st @ map Product (reactions st))"
  have pool: "?pool \<noteq> []" "\<forall>e\<in>set ?pool. e \<noteq> []" using assms by auto
  consider "switch_cat st = 0" | "switch_cat st = 1" | "switch_cat st = 2"
    | "switch_cat st \<noteq> 0" "switch_cat st \<noteq> 1" "switch_cat st \<noteq> 2" by blast
  then show ?thesis
  proof cases
    case 1
    obtain rs g' where l: "assign_loop 0 ?pool (\<lambda>e. 0) (catalyst_probability st)
        (reactions st) g [] = Inr (rs, g')"
      using assign_loop_ok[of 0 ?pool "\<lambda>e. 0"] by blast
    then have "assign_catalysts (st, g) = Inr (st\<lparr>reactions := rs\<rparr>, g')"
      using 1 by (simp add: assign_catalysts_def Let_def)
    then show ?thesis using assign_loop_uncatalysed[OF l] by blast
  next
    case 2
    obtain w where w: "calculate_weighted_probabilities ?pool = Inr w" "\<forall>e\<in>set ?pool. 0 < w e"
      using calculate_weighted_probabilities_ok[OF pool] by blast
    obtain rs g' where l: "assign_loop 1 ?pool w (catalyst_probability st)
        (reactions st) g [] = Inr (rs, g')"
      using assign_loop_ok[of 1 ?pool w] w(2) by blast
    then have "assign_catalysts (st, g) = Inr (st\<lparr>reactions := rs\<rparr>, g')"
      using 2 w(1) by (simp add: assign_catalysts_def Let_def)
    then show ?thesis using assign_loop_uncatalysed[OF l] by blast
  next
    case 3
    obtain w where w: "calculate_weighted_probabilities ?pool = Inr w" "\<forall>e\<in>set ?pool. 0 < w e"
      using calculate_weighted_probabilities_ok[OF pool] by blast
    obtain rs g' where l: "assign_loop 2 ?pool w (catalyst_probability st)
        (reactions st) g [] = Inr (rs, g')"
      using assign_loop_ok[of 2 ?pool w] w(2) by blast
    then have "assign_catalysts (st, g) = Inr (st\<lparr>reactions := rs\<rparr>, g')"
      using 3 w(1) by (simp add: assign_catalysts_def Let_def)
    then show ?thesis using assign_loop_uncatalysed[OF l] by blast
  next
    case 4
    then have "assign_catalysts (st, g) = Inr (st\<lparr>reactions := reactions st\<rparr>, g)"
      using assign_catalysts_unknown[of "(st, g)"] by simp
    then show ?thesis by blast
  qed
qed

lemma tree_rows_Product_nonempty:
  "tree_rows p l new \<Longrightarrow> r \<in> set new \<Longrightarrow> Product r \<noteq> []"
  unfolding tree_rows_def by fastforce

lemma tree_rows_uncatalysed: "tree_rows p l new \<Longrightarrow> map uncatalysed new = new"
  unfolding tree_rows_def by (simp add: map_idI uncatalysed_id)

text \<open>What \<^verbatim>\<open>build_reactions\<close> returns for a non-empty final product.\<close>

lemma build_reactions_rows:
  assumes "fp \<noteq> []"
  shows "\<exists>st g'. build_reactions (init_AutocatalyticSet g fp p s po) = Inr (st, g') \<and>
           tree_rows fp 0 (map uncatalysed (reactions st)) \<and>
           final_product st = fp \<and> switch_cat st = s \<and> subnetwork_dict st = [] \<and>
           reactions_df st = Some (pd_DataFrame (reactions st))"
proof -
  let ?sg0 = "init_AutocatalyticSet g fp p s po"
  have r0: "reactions (fst ?sg0) = []" and f0: "final_product (fst ?sg0) = fp"
    and e0: "elements (fst ?sg0) = map (\<lambda>c. [c]) fp" and s0: "switch_cat (fst ?sg0) = s"
    and d0: "subnetwork_dict (fst ?sg0) = []"
    by (simp_all add: init_AutocatalyticSet_def)
  obtain sg1 new where sp: "split_product ?sg0 fp 0 = Inr sg1"
    and n: "reactions (fst sg1) = new" and k: "same_config (fst ?sg0) (fst sg1)"
    and t: "tree_rows fp 0 new"
    using split_product_rows[OF assms, of ?sg0 0] r0 by auto
  have el: "elements (fst sg1) = map (\<lambda>c. [c]) fp" using k e0 by (simp add: same_config_def)
  have "elements (fst sg1) \<noteq> []" "\<forall>e\<in>set (elements (fst sg1)). e \<noteq> []"
    "\<forall>r\<in>set (reactions (fst sg1)). Product r \<noteq> []"
    using assms el n tree_rows_Product_nonempty[OF t] by auto
  then obtain rs g' where ac: "assign_catalysts (fst sg1, snd sg1)
        = Inr ((fst sg1)\<lparr>reactions := rs\<rparr>, g')"
    and u: "map uncatalysed rs = map uncatalysed (reactions (fst sg1))"
    using assign_catalysts_ok[of "fst sg1" "snd sg1"] by blast
  let ?st = "(fst sg1)\<lparr>reactions := rs, reactions_df := Some (pd_DataFrame rs)\<rparr>"
  have "build_reactions ?sg0 = Inr (?st, g')"
    using sp ac by (simp add: build_reactions_def f0)
  moreover have "tree_rows fp 0 (map uncatalysed (reactions ?st))"
    using u n t tree_rows_uncatalysed[OF t] by simp
  moreover have "final_product ?st = fp" "switch_cat ?st = s" "subnetwork_dict ?st = []"
    using k f0 s0 d0 by (simp_all add: same_config_def)
  ultimately show ?thesis by auto
qed

lemma sort_eq_of_mset: "mset xs = mset ys \<Longrightarrow> sort xs = sort (ys :: ('a::linorder) list)"
  by (rule properties_for_sort) simp_all

lemma tree_rows_perm:
  "tree_rows p l new \<Longrightarrow> r \<in> set new \<Longrightarrow>
     sort (Product r) = sort (Constituent_1 r @ Constituent_2 r)"
  unfolding tree_rows_def by (metis sort_eq_of_mset)

lemma tree_rows_butlast_eq:
  assumes "tree_rows p l new" "r \<in> set (butlast new)"
  shows "Product r = sort (Constituent_1 r @ Constituent_2 r)"
proof -
  have "r \<in> set new" using assms(2) by (rule in_set_butlastD)
  then have "sort (Product r) = sort (Constituent_1 r @ Constituent_2 r)"
    using assms(1) by (rule tree_rows_perm[rotated])
  moreover have "sorted (Product r)" using assms unfolding tree_rows_def by blast
  ultimately show ?thesis by (simp add: sort_key_id_if_sorted)
qed

lemma tree_rows_all_eq:
  assumes "tree_rows p l new" "sorted p" "r \<in> set new"
  shows "Product r = sort (Constituent_1 r @ Constituent_2 r)"
proof -
  have "sort (Product r) = sort (Constituent_1 r @ Constituent_2 r)"
    using assms(1,3) by (rule tree_rows_perm)
  moreover have "sorted (Product r)" using assms by (rule tree_rows_sorted)
  ultimately show ?thesis by (simp add: sort_key_id_if_sorted)
qed

lemma tree_rows_root:
  "tree_rows p l new \<Longrightarrow> 2 \<le> length p \<Longrightarrow> new \<noteq> [] \<and> Product (last new) = p"
  unfolding tree_rows_def by blast

lemma tree_rows_composite:
  "tree_rows p l new \<Longrightarrow> r \<in> set new \<Longrightarrow> c = Constituent_1 r \<or> c = Constituent_2 r \<Longrightarrow>
     2 \<le> length c \<Longrightarrow> \<exists>r'\<in>set new. Product r' = c"
  unfolding tree_rows_def by blast

lemma build_reactions_unknown:
  assumes "fp \<noteq> []" "s \<noteq> 0" "s \<noteq> 1" "s \<noteq> 2"
  shows "\<exists>st g'. build_reactions (init_AutocatalyticSet g fp p s po) = Inr (st, g') \<and>
           tree_rows fp 0 (reactions st)"
proof -
  let ?sg0 = "init_AutocatalyticSet g fp p s po"
  have r0: "reactions (fst ?sg0) = []" and f0: "final_product (fst ?sg0) = fp"
    and s0: "switch_cat (fst ?sg0) = s"
    by (simp_all add: init_AutocatalyticSet_def)
  obtain sg1 new where sp: "split_product ?sg0 fp 0 = Inr sg1"
    and n: "reactions (fst sg1) = new" and k: "same_config (fst ?sg0) (fst sg1)"
    and t: "tree_rows fp 0 new"
    using split_product_rows[OF assms(1), of ?sg0 0] r0 by auto
  have "switch_cat (fst sg1) = s" using k s0 by (simp add: same_config_def)
  then have "assign_catalysts sg1 = Inr sg1"
    using assms by (intro assign_catalysts_unknown) simp_all
  then have "build_reactions ?sg0 =
      Inr ((fst sg1)\<lparr>reactions_df := Some (pd_DataFrame (reactions (fst sg1)))\<rparr>, snd sg1)"
    using sp by (simp add: build_reactions_def f0 split: prod.splits)
  then show ?thesis using t n by auto
qed

lemmas eval_defs = init_AutocatalyticSet_def build_reactions_def rng_tail_def random_randint_def
  split_product.simps
  add_reaction_def Let_def assign_catalysts_def assign_one_def random_random_def
  random_choice_def pd_DataFrame_def


text \<open>
  Facts about the closure computed by \<^verbatim>\<open>get_subnetwork\<close>: its rows are rows of the
  table, and in a table whose constituents are shorter than their products no product
  in the closure of \<open>p\<close> is longer than \<open>p\<close>.
\<close>

definition shrinking :: "'a reaction list \<Rightarrow> bool" where
  "shrinking df \<longleftrightarrow>
     (\<forall>r\<in>set df. length (Constituent_1 r) < length (Product r) \<and>
                  length (Constituent_2 r) < length (Product r))"

lemma set_rows_with_product: "set (rows_with_product df p) = {r \<in> set df. Product r = p}"
  by (auto simp: rows_with_product_def)

lemma set_constituents:
  "set (constituents rs) = Constituent_1 ` set rs \<union> Constituent_2 ` set rs"
  by (auto simp: constituents_def)

lemma for_reactants_rows:
  "set (fst (for_reactants df R (sub, nxt))) = set sub \<union> {r \<in> set df. Product r \<in> set R}"
  by (auto simp: for_reactants_eq set_rows_with_product)

lemma for_reactants_next:
  "set (snd (for_reactants df R (sub, nxt))) =
     set nxt \<union> Constituent_1 ` {r \<in> set df. Product r \<in> set R}
             \<union> Constituent_2 ` {r \<in> set df. Product r \<in> set R}"
  by (auto simp: for_reactants_eq set_rows_with_product set_constituents)

lemma while_reactants_subset:
  "set sub \<subseteq> set df \<Longrightarrow> set (while_reactants df sub R) \<subseteq> set df"
proof (induction df sub R rule: while_reactants.induct)
  case (1 df sub R)
  show ?case
  proof (cases "R = []")
    case True
    then show ?thesis using "1.prems" by (subst while_reactants.simps) simp
  next
    case False
    obtain sub' nxt where f: "for_reactants df R (sub, []) = (sub', nxt)"
      by (cases "for_reactants df R (sub, [])")
    have "set sub' \<subseteq> set df"
      using for_reactants_rows[of df R sub "[]"] f "1.prems" by auto
    then have "set (while_reactants df sub'
        [x \<leftarrow> py_set nxt. x \<notin> set (map Product sub')]) \<subseteq> set df"
      using "1.IH"[OF False f[symmetric] refl] by simp
    then show ?thesis
      using False f by (subst while_reactants.simps) simp
  qed
qed

lemma while_reactants_length:
  "shrinking df \<Longrightarrow> \<forall>r\<in>set sub. length (Product r) \<le> L \<Longrightarrow>
     \<forall>x\<in>set R. length x < L \<Longrightarrow>
     \<forall>r\<in>set (while_reactants df sub R). length (Product r) \<le> L"
proof (induction df sub R rule: while_reactants.induct)
  case (1 df sub R)
  show ?case
  proof (cases "R = []")
    case True
    then show ?thesis using "1.prems" by (subst while_reactants.simps) simp
  next
    case False
    obtain sub' nxt where f: "for_reactants df R (sub, []) = (sub', nxt)"
      by (cases "for_reactants df R (sub, [])")
    have s': "set sub' = set sub \<union> {r \<in> set df. Product r \<in> set R}"
      using for_reactants_rows[of df R sub "[]"] f by simp
    have n': "set nxt = Constituent_1 ` {r \<in> set df. Product r \<in> set R}
             \<union> Constituent_2 ` {r \<in> set df. Product r \<in> set R}"
      using for_reactants_next[of df R sub "[]"] f by simp
    have a: "\<forall>r\<in>set sub'. length (Product r) \<le> L"
      using s' "1.prems"(2,3) by fastforce
    have b: "\<forall>x\<in>set [x \<leftarrow> py_set nxt. x \<notin> set (map Product sub')]. length x < L"
    proof
      fix x assume "x \<in> set [x \<leftarrow> py_set nxt. x \<notin> set (map Product sub')]"
      then have "x \<in> set nxt" by simp
      then obtain r where r: "r \<in> set df" "Product r \<in> set R"
        "x = Constituent_1 r \<or> x = Constituent_2 r" using n' by auto
      then have "length x < length (Product r)"
        using "1.prems"(1) unfolding shrinking_def by blast
      then show "length x < L" using r(2) "1.prems"(3) by fastforce
    qed
    have "\<forall>r\<in>set (while_reactants df sub'
        [x \<leftarrow> py_set nxt. x \<notin> set (map Product sub')]). length (Product r) \<le> L"
      using "1.IH"[OF False f[symmetric] refl "1.prems"(1) a b] .
    then show ?thesis
      using False f by (subst while_reactants.simps) simp
  qed
qed

lemma get_subnetwork_ok:
  assumes "has_columns df"
  shows "\<exists>rs. get_subnetwork df p = Inr (DataFrame True rs) \<and> set rs \<subseteq> set (rows df) \<and>
           (shrinking (rows df) \<longrightarrow> (\<forall>r\<in>set rs. length (Product r) \<le> length p))"
proof -
  let ?sub = "rows_with_product (rows df) p"
  let ?R = "py_set (constituents ?sub)"
  let ?w = "while_reactants (rows df) ?sub ?R"
  have eq: "get_subnetwork df p = Inr (DataFrame True (drop_duplicates ?w))"
    using assms by (simp add: get_subnetwork_def Let_def)
  have sub: "set ?sub \<subseteq> set (rows df)" by (auto simp: set_rows_with_product)
  have a: "set ?w \<subseteq> set (rows df)" using sub by (rule while_reactants_subset)
  have b: "\<forall>r\<in>set ?w. length (Product r) \<le> length p" if sh: "shrinking (rows df)"
  proof (rule while_reactants_length[OF sh])
    show "\<forall>r\<in>set ?sub. length (Product r) \<le> length p"
      by (auto simp: set_rows_with_product)
    show "\<forall>x\<in>set ?R. length x < length p"
      using sh unfolding shrinking_def
      by (auto simp: set_constituents set_rows_with_product)
  qed
  show ?thesis using eq a b by (auto simp: drop_duplicates_def)
qed

text \<open>
  The state during \<^verbatim>\<open>extract_subnetworks\<close>: the frame and the final product stay, and
  every entry of the dict has a key other than the final product and a non-empty
  frame of rows of the full table.
\<close>

definition extracting ::
  "'a dataframe \<Rightarrow> 'a list \<Rightarrow> 'a reaction list \<Rightarrow> 'a autocatalytic_set \<Rightarrow> bool" where
  "extracting df fp rs st \<longleftrightarrow>
     reactions_df st = Some df \<and> final_product st = fp \<and> reactions st = rs \<and>
     (\<forall>kv\<in>set (subnetwork_dict st).
        fst kv \<noteq> fp \<and> has_columns (snd kv) \<and> rows (snd kv) \<noteq> [] \<and>
        set (rows (snd kv)) \<subseteq> set (rows df))"

lemma set_dict_set: "set (dict_set d k v) \<subseteq> insert (k, v) (set d)"
  by (induction d k v rule: dict_set.induct) auto

lemma extracting_dict_set:
  assumes "extracting df fp rs st" "k \<noteq> fp" "has_columns v" "rows v \<noteq> []"
    "set (rows v) \<subseteq> set (rows df)"
  shows "extracting df fp rs (st\<lparr>subnetwork_dict := dict_set (subnetwork_dict st) k v\<rparr>)"
proof -
  have "\<forall>kv\<in>set (dict_set (subnetwork_dict st) k v).
        fst kv \<noteq> fp \<and> has_columns (snd kv) \<and> rows (snd kv) \<noteq> [] \<and>
        set (rows (snd kv)) \<subseteq> set (rows df)"
  proof
    fix kv assume "kv \<in> set (dict_set (subnetwork_dict st) k v)"
    then have "kv = (k, v) \<or> kv \<in> set (subnetwork_dict st)"
      using set_dict_set[of "subnetwork_dict st" k v] by auto
    then show "fst kv \<noteq> fp \<and> has_columns (snd kv) \<and> rows (snd kv) \<noteq> [] \<and>
        set (rows (snd kv)) \<subseteq> set (rows df)"
      using assms unfolding extracting_def by auto
  qed
  then show ?thesis using assms(1) unfolding extracting_def by simp
qed

lemma process_product_step:
  assumes ex: "extracting df fp rs st" and cols: "has_columns df"
    and sh: "shrinking (rows df)" and len: "length p \<le> d"
    and IH: "\<And>st cs. extracting df fp rs st \<Longrightarrow> \<forall>c\<in>set cs. length c < d \<Longrightarrow>
        \<exists>st'. process_constituents d st cs = Inr st' \<and> extracting df fp rs st'"
  shows "\<exists>st'. process_product (Suc d) st p = Inr st' \<and> extracting df fp rs st'"
proof -
  obtain sub where g: "get_subnetwork df p = Inr (DataFrame True sub)"
    and s1: "set sub \<subseteq> set (rows df)" and s2: "\<forall>r\<in>set sub. length (Product r) \<le> length p"
    using get_subnetwork_ok[OF cols, of p] sh by blast
  have df: "reactions_df st = Some df" and fp: "final_product st = fp"
    using ex by (simp_all add: extracting_def)
  show ?thesis
  proof (cases "sub = []")
    case True
    then show ?thesis using ex df g by simp
  next
    case False
    define st1 where "st1 = (if p \<noteq> fp
        then st\<lparr>subnetwork_dict := dict_set (subnetwork_dict st) p (DataFrame True sub)\<rparr>
        else st)"
    have ex1: "extracting df fp rs st1"
      using ex False s1 extracting_dict_set[OF ex, of p "DataFrame True sub"]
      by (simp add: st1_def)
    have "\<forall>c\<in>set (py_set (constituents sub)). length c < d"
    proof
      fix c assume "c \<in> set (py_set (constituents sub))"
      then obtain r where r: "r \<in> set sub" "c = Constituent_1 r \<or> c = Constituent_2 r"
        by (auto simp: set_constituents)
      then have "length c < length (Product r)"
        using s1 sh unfolding shrinking_def by blast
      then show "length c < d" using s2 r(1) len by fastforce
    qed
    then obtain st' where "process_constituents d st1 (py_set (constituents sub)) = Inr st'"
      and "extracting df fp rs st'"
      using IH[OF ex1] by blast
    then show ?thesis using df g False fp by (auto simp: st1_def Let_def)
  qed
qed

lemma process_constituents_step:
  assumes IH: "\<And>st p. extracting df fp rs st \<Longrightarrow> length p < d \<Longrightarrow>
        \<exists>st'. process_product d st p = Inr st' \<and> extracting df fp rs st'"
  shows "extracting df fp rs st \<Longrightarrow> \<forall>c\<in>set cs. length c < d \<Longrightarrow>
        \<exists>st'. process_constituents d st cs = Inr st' \<and> extracting df fp rs st'"
proof (induction cs arbitrary: st)
  case Nil
  then show ?case by simp
next
  case (Cons c cs)
  show ?case
  proof (cases "c \<in> set (dict_keys (subnetwork_dict st))")
    case True
    then show ?thesis using Cons by simp
  next
    case False
    obtain st1 where "process_product d st c = Inr st1" "extracting df fp rs st1"
      using IH[OF Cons.prems(1), of c] Cons.prems(2) by auto
    then show ?thesis using False Cons.IH[of st1] Cons.prems(2) by simp
  qed
qed

lemma process_product_ok:
  assumes cols: "has_columns df" and sh: "shrinking (rows df)"
  shows "extracting df fp rs st \<Longrightarrow> length p < d \<Longrightarrow>
        \<exists>st'. process_product d st p = Inr st' \<and> extracting df fp rs st'"
proof (induction d arbitrary: st p)
  case 0
  then show ?case by simp
next
  case (Suc d)
  have "length p \<le> d" using Suc.prems(2) by simp
  then show ?case
    using process_product_step[OF Suc.prems(1) cols sh, of p d]
      process_constituents_step[of df fp rs d] Suc.IH by blast
qed

lemma tree_rows_shrinking:
  assumes "tree_rows p l (map uncatalysed rs)"
  shows "shrinking rs"
  unfolding shrinking_def
proof
  fix r assume "r \<in> set rs"
  then have "uncatalysed r \<in> set (map uncatalysed rs)" by simp
  then have ne: "Constituent_1 r \<noteq> []" "Constituent_2 r \<noteq> []"
    and ms: "mset (Constituent_1 r @ Constituent_2 r) = mset (Product r)"
    using assms unfolding tree_rows_def by fastforce+
  have "length (Constituent_1 r @ Constituent_2 r) = length (Product r)"
    using ms by (rule mset_eq_length)
  then have "length (Constituent_1 r) + length (Constituent_2 r) = length (Product r)"
    by simp
  moreover have "0 < length (Constituent_1 r)" "0 < length (Constituent_2 r)"
    using ne by simp_all
  ultimately show "length (Constituent_1 r) < length (Product r) \<and>
      length (Constituent_2 r) < length (Product r)" by linarith
qed

lemma is_autocatalytic_subnetwork_ok:
  "has_columns df \<Longrightarrow> \<exists>b. is_autocatalytic_subnetwork df c = Inr b"
  by (auto simp: is_autocatalytic_subnetwork_def Let_def)

lemma count_subnetworks_ok:
  "\<forall>kv\<in>set d. has_columns (snd kv) \<Longrightarrow>
     \<exists>sc ac. count_subnetworks d counts = Inr (sc, ac)"
proof (induction d arbitrary: counts)
  case Nil
  then show ?case by (cases counts) simp
next
  case (Cons kv d)
  obtain k v where kv: "kv = (k, v)" by (cases kv)
  obtain sc ac where c: "counts = (sc, ac)" by (cases counts)
  obtain b where "is_autocatalytic_subnetwork v True = Inr b"
    using Cons.prems kv is_autocatalytic_subnetwork_ok[of v True] by auto
  then show ?case using Cons kv c by simp
qed

text \<open>
  One trial on a final product of two or more characters: the build, the extraction
  and the two checks all return, when the depth allowed to \<^verbatim>\<open>process_product\<close> exceeds
  the length of the final product.
\<close>

lemma trial_ok:
  assumes len: "2 \<le> length fp" and depth: "length fp < depth"
  shows "\<exists>built g1 st sc c d df b.
     build_reactions (init_AutocatalyticSet g fp p s po) = Inr (built, g1) \<and>
     process_autocatalytic_set depth built = Inr (st, [sc, c, d]) \<and>
     reactions_df st = Some df \<and> is_autocatalytic_subnetwork df True = Inr b \<and>
     extracting (pd_DataFrame (reactions built)) fp (reactions built) st"
proof -
  have ne: "fp \<noteq> []" using len by auto
  obtain built g1 where b: "build_reactions (init_AutocatalyticSet g fp p s po) = Inr (built, g1)"
    and t: "tree_rows fp 0 (map uncatalysed (reactions built))"
    and f: "final_product built = fp" and d0: "subnetwork_dict built = []"
    and df: "reactions_df built = Some (pd_DataFrame (reactions built))"
    using build_reactions_rows[OF ne, of g p s po] by blast
  let ?df = "pd_DataFrame (reactions built)"
  have "reactions built \<noteq> []" using tree_rows_root[OF t len] by simp
  then have cols: "has_columns ?df" by (simp add: pd_DataFrame_def)
  have sh: "shrinking (rows ?df)"
    using tree_rows_shrinking[OF t] by (simp add: pd_DataFrame_def)
  have ex0: "extracting ?df fp (reactions built) built"
    using df f d0 by (simp add: extracting_def)
  obtain st where e: "extract_subnetworks depth built = Inr st"
    and ex: "extracting ?df fp (reactions built) st"
    using process_product_ok[OF cols sh ex0, of fp depth] depth f
    by (auto simp: extract_subnetworks_def)
  have "\<forall>kv\<in>set (subnetwork_dict st). has_columns (snd kv)"
    using ex by (simp add: extracting_def)
  then obtain sc c where cnt: "count_subnetworks (subnetwork_dict st) (0, 0) = Inr (sc, c)"
    using count_subnetworks_ok by blast
  have ps: "process_autocatalytic_set depth built
      = Inr (st, [sc, c, max_layer_loop (reactions st) 0 + 1])"
    using e cnt by (simp add: process_autocatalytic_set_def Let_def)
  have dfst: "reactions_df st = Some ?df" using ex by (simp add: extracting_def)
  obtain w where "is_autocatalytic_subnetwork ?df True = Inr w"
    using is_autocatalytic_subnetwork_ok[OF cols] by blast
  then show ?thesis using b ps dfst ex by blast
qed

lemma list_trials_ok:
  "2 \<le> length (a_final_product a) \<Longrightarrow> length (a_final_product a) < depth \<Longrightarrow>
     \<exists>out a' g'. list_trials depth k g a acc = Inr (out, a', g') \<and>
       length (max_depths a') = length (max_depths a) + k"
proof (induction k arbitrary: g a acc)
  case 0
  then show ?case by simp
next
  case (Suc k)
  obtain built g1 st sc c d df b where
    b: "build_reactions (init_AutocatalyticSet g (a_final_product a) (a_catalyst_probability a)
          (a_switch_cat a) (a_print_out a)) = Inr (built, g1)"
    and ps: "process_autocatalytic_set depth built = Inr (st, [sc, c, d])"
    and df: "reactions_df st = Some df" and w: "is_autocatalytic_subnetwork df True = Inr b"
    using trial_ok[OF Suc.prems, of g "a_catalyst_probability a" "a_switch_cat a"
        "a_print_out a"] by blast
  let ?a' = "a\<lparr>autocatalytic_subnetwork_counts := autocatalytic_subnetwork_counts a @ [c],
               subnetwork_counts := subnetwork_counts a @ [sc],
               max_depths := max_depths a @ [d]\<rparr>"
  let ?out = "acc @ contribution (switch_aut_prob a) d (if b then 1 else 0) c"
  have step: "list_trials depth (Suc k) g a acc = list_trials depth k g1 ?a' ?out"
    using b ps df w by (simp add: Let_def)
  obtain out a'' g' where "list_trials depth k g1 ?a' ?out = Inr (out, a'', g')"
    and "length (max_depths a'') = length (max_depths ?a') + k"
    using Suc.IH[of ?a' g1 ?out] Suc.prems by auto
  then show ?case using step by simp
qed

lemma build_reactions_empty:
  "build_reactions (init_AutocatalyticSet g [] p s po)
     = Inl (ValueError ''empty range for randrange()'')"
  by (simp add: build_reactions_def init_AutocatalyticSet_def split_product_empty)

lemma build_reactions_single:
  "\<exists>st g'. build_reactions (init_AutocatalyticSet g [x] p s po) = Inr (st, g') \<and>
     reactions st = [] \<and> reactions_df st = Some (DataFrame False []) \<and> final_product st = [x]"
proof -
  obtain st g' where b: "build_reactions (init_AutocatalyticSet g [x] p s po) = Inr (st, g')"
    and t: "tree_rows [x] 0 (map uncatalysed (reactions st))"
    and f: "final_product st = [x]"
    and df: "reactions_df st = Some (pd_DataFrame (reactions st))"
    using build_reactions_rows[of "[x]" g p s po] by auto
  have "reactions st = []" using t by (simp add: tree_rows_def)
  then show ?thesis using b f df by (auto simp: pd_DataFrame_def)
qed

lemma process_autocatalytic_set_no_columns:
  "reactions_df st = Some (DataFrame False []) \<Longrightarrow>
     process_autocatalytic_set (Suc d) st = Inl (KeyError ''Product'')"
  by (simp add: process_autocatalytic_set_def extract_subnetworks_def get_subnetwork_def)

lemma index_trials_unpack:
  assumes "2 \<le> length (a_final_product a)" "length (a_final_product a) < depth"
  shows "index_trials depth (Suc k) g a acc
     = Inl (ValueError ''too many values to unpack (expected 2)'')"
proof -
  obtain built g1 st sc c d where
    "build_reactions (init_AutocatalyticSet g (a_final_product a) (a_catalyst_probability a)
          (a_switch_cat a) (a_print_out a)) = Inr (built, g1)"
    and "process_autocatalytic_set depth built = Inr (st, [sc, c, d])"
    using trial_ok[OF assms, of g "a_catalyst_probability a" "a_switch_cat a"
        "a_print_out a"] by blast
  then show ?thesis by simp
qed

lemma tree_rows_catalyst: "tree_rows p l new \<Longrightarrow> r \<in> set new \<Longrightarrow> Catalyst r = []"
  by (simp add: tree_rows_def)

text \<open>
  The two sets of the specification of the autocatalysis check: \<open>C\<close>, the distinct
  non-empty catalyst values of a table, and \<open>U\<close>, every symbol that is a product or a
  constituent somewhere in it.
\<close>

definition spec_catalysts :: "'a reaction list \<Rightarrow> 'a list set" where
  "spec_catalysts rs = Catalyst ` set rs - {[]}"

definition spec_symbols :: "'a reaction list \<Rightarrow> 'a list set" where
  "spec_symbols rs = Product ` set rs \<union> Constituent_1 ` set rs \<union> Constituent_2 ` set rs"

lemma is_autocatalytic_subnetwork_sets:
  "is_autocatalytic_subnetwork (DataFrame True rs) chk =
     Inr (\<not> (chk \<and> spec_catalysts rs = {}) \<and> spec_catalysts rs \<subseteq> spec_symbols rs)"
proof -
  have c: "set [c \<leftarrow> py_set (map Catalyst rs). c \<noteq> []] = spec_catalysts rs"
    by (auto simp: spec_catalysts_def)
  have u: "set (py_set (py_set (map Product rs) @ py_set (map Constituent_1 rs)
        @ py_set (map Constituent_2 rs))) = spec_symbols rs"
    by (auto simp: spec_symbols_def)
  have e: "[c \<leftarrow> py_set (map Catalyst rs). c \<noteq> []] = [] \<longleftrightarrow> spec_catalysts rs = {}"
    using c by (metis set_empty)
  have d: "[c \<leftarrow> [c \<leftarrow> py_set (map Catalyst rs). c \<noteq> []].
        c \<notin> set (py_set (py_set (map Product rs) @ py_set (map Constituent_1 rs)
        @ py_set (map Constituent_2 rs)))] = [] \<longleftrightarrow> spec_catalysts rs \<subseteq> spec_symbols rs"
    unfolding u filter_empty_conv c by auto
  show ?thesis
    unfolding is_autocatalytic_subnetwork_def Let_def
    by (simp only: dataframe.sel not_True_eq_False if_False e d) auto
qed

lemmas eval_analysis_defs = find_assembly_list_def init_AssemblyAnalysis_def
  process_autocatalytic_set_def extract_subnetworks_def get_subnetwork_def
  rows_with_product_def constituents_def drop_duplicates_def while_reactants.simps
  is_autocatalytic_subnetwork_def contribution_def dict_keys_def numeral_3_eq_3

section \<open>Settled claims\<close>

text \<open>
  C1, as amended. For every non-empty final product, every random source and every
  configuration, the network is built, and in it: the product of every reaction is a
  permutation of its two constituents (the sorted product equals their sorted
  concatenation); every reaction but the last recorded one has
  \<open>product = sort (constituent1 + constituent2)\<close>; the last recorded one is the root,
  whose product is the final product as given, and it satisfies the equation too when
  the final product is sorted.
\<close>

theorem reactions_product_sorted_concatenation:
  assumes "fp \<noteq> []"
  shows "\<exists>st g'. build_reactions (init_AutocatalyticSet g fp p s po) = Inr (st, g') \<and>
     (\<forall>r\<in>set (reactions st).
        sort (Product r) = sort (Constituent_1 r @ Constituent_2 r)) \<and>
     (\<forall>r\<in>set (butlast (reactions st)).
        Product r = sort (Constituent_1 r @ Constituent_2 r)) \<and>
     (2 \<le> length fp \<longrightarrow> reactions st \<noteq> [] \<and> Product (last (reactions st)) = fp) \<and>
     (sorted fp \<longrightarrow>
        (\<forall>r\<in>set (reactions st). Product r = sort (Constituent_1 r @ Constituent_2 r)))"
proof -
  obtain st g' where b: "build_reactions (init_AutocatalyticSet g fp p s po) = Inr (st, g')"
    and t: "tree_rows fp 0 (map uncatalysed (reactions st))"
    using build_reactions_rows[OF assms, of g p s po] by blast
  have mem: "uncatalysed r \<in> set (map uncatalysed (reactions st))"
    if "r \<in> set (reactions st)" for r using that by simp
  have A: "\<forall>r\<in>set (reactions st).
        sort (Product r) = sort (Constituent_1 r @ Constituent_2 r)"
    using tree_rows_perm[OF t mem] by simp
  have B: "\<forall>r\<in>set (butlast (reactions st)).
        Product r = sort (Constituent_1 r @ Constituent_2 r)"
  proof
    fix r assume "r \<in> set (butlast (reactions st))"
    then have "uncatalysed r \<in> set (butlast (map uncatalysed (reactions st)))"
      by (simp add: map_butlast[symmetric])
    then show "Product r = sort (Constituent_1 r @ Constituent_2 r)"
      using tree_rows_butlast_eq[OF t] by fastforce
  qed
  have C: "2 \<le> length fp \<longrightarrow> reactions st \<noteq> [] \<and> Product (last (reactions st)) = fp"
    using tree_rows_root[OF t] by (auto simp: last_map)
  have D: "sorted fp \<longrightarrow>
        (\<forall>r\<in>set (reactions st). Product r = sort (Constituent_1 r @ Constituent_2 r))"
    using tree_rows_all_eq[OF t _ mem] by simp
  show ?thesis using b A B C D by blast
qed

theorem reactions_product_sorted_concatenation_witness:
  "''AB'' \<noteq> [] \<and> 2 \<le> length ''AB'' \<and> sorted ''AB'' \<and>
   (\<exists>st g'. build_reactions (init_AutocatalyticSet (\<lambda>i. 0) ''AB'' 1 0 False) = Inr (st, g') \<and>
      reactions st \<noteq> [] \<and> Product (last (reactions st)) = ''AB'' \<and>
      list_all (\<lambda>r. Product r = sort (Constituent_1 r @ Constituent_2 r)) (reactions st))"
  using reactions_product_sorted_concatenation[of "''AB''" "\<lambda>i. 0" 1 0 False]
  by (simp add: list_all_iff) blast

text \<open>
  C1 as stated fails at the final product \<open>BA\<close>: the root reaction is recorded with the
  product \<open>BA\<close>, and the sorted concatenation of its constituents \<open>B\<close> and \<open>A\<close> is \<open>AB\<close>.
\<close>

theorem reactions_product_sorted_concatenation_counterexample:
  "map_sum id (\<lambda>sg. map (\<lambda>r. (Constituent_1 r, Constituent_2 r, Product r,
                               sort (Constituent_1 r @ Constituent_2 r)))
                     (reactions (fst sg)))
     (build_reactions (init_AutocatalyticSet (\<lambda>i. 1) ''BA'' 0 0 False))
   = Inr [(''B'', ''A'', ''BA'', ''AB'')]"
  by (simp add: eval_defs)



text \<open>
  C9. For a final product of two or more characters and at least one trial,
  \<^verbatim>\<open>find_assembly_index\<close> raises on its first trial: the network is built,
  \<^verbatim>\<open>process_autocatalytic_set\<close> returns a tuple of three values, and unpacking it into
  two variables fails. (The depth allowed to \<^verbatim>\<open>process_product\<close> exceeds the length of
  the final product, so that the extraction itself is not cut short.)
\<close>

theorem find_assembly_index_unpack_error:
  assumes "2 \<le> length fp" "length fp < depth" "1 \<le> n"
  shows "find_assembly_index depth g (init_AssemblyAnalysis fp n p s mode po)
       = Inl (ValueError ''too many values to unpack (expected 2)'') \<and>
     (\<exists>built g1 st sc c d.
        build_reactions (init_AutocatalyticSet g fp p s po) = Inr (built, g1) \<and>
        process_autocatalytic_set depth built = Inr (st, [sc, c, d]))"
proof -
  let ?a = "init_AssemblyAnalysis fp n p s mode po"
  have fp: "a_final_product ?a = fp" and n: "a_n ?a = n"
    by (simp_all add: init_AssemblyAnalysis_def)
  obtain k where "n = Suc k" using assms(3) by (cases n) auto
  then have an: "a_n ?a = Suc k" using n by simp
  have "index_trials depth (Suc k) g ?a []
      = Inl (ValueError ''too many values to unpack (expected 2)'')"
    using assms(1,2) fp by (intro index_trials_unpack) simp_all
  then have it: "index_trials depth (a_n ?a) g ?a []
      = Inl (ValueError ''too many values to unpack (expected 2)'')"
    by (simp only: an)
  have "find_assembly_index depth g ?a
      = Inl (ValueError ''too many values to unpack (expected 2)'')"
    unfolding find_assembly_index_def it by simp
  then show ?thesis using trial_ok[OF assms(1,2), of g p s po] by blast
qed

theorem find_assembly_index_unpack_error_witness:
  "2 \<le> length ''AB'' \<and> length ''AB'' < (3::nat) \<and> (1::nat) \<le> 1 \<and>
   find_assembly_index 3 (\<lambda>i. 0) (init_AssemblyAnalysis ''AB'' 1 (4/5) 2 (PyBool True) True)
     = Inl (ValueError ''too many values to unpack (expected 2)'')"
  using find_assembly_index_unpack_error[of "''AB''" 3 1 "\<lambda>i. 0" "4/5" 2 "PyBool True" True]
  by simp

text \<open>
  C3 fails on the code. For a final product of one character no reaction is recorded,
  the DataFrame built from the empty list has no columns, and the first column access
  of \<^verbatim>\<open>get_subnetwork\<close> raises \<open>KeyError\<close>: the trial ends in an error, for every
  probability, strategy, mode and random source, and no contribution is returned.
\<close>

theorem single_character_trial_key_error:
  "find_assembly_list (Suc d) g (init_AssemblyAnalysis ''A'' 1 p s mode po)
     = Inl (KeyError ''Product'') \<and>
   (\<exists>st g'. build_reactions (init_AutocatalyticSet g ''A'' p s po) = Inr (st, g') \<and>
      reactions st = [] \<and> reactions_df st = Some (DataFrame False []))"
proof -
  obtain st g' where b: "build_reactions (init_AutocatalyticSet g ''A'' p s po) = Inr (st, g')"
    and r: "reactions st = []" and df: "reactions_df st = Some (DataFrame False [])"
    using build_reactions_single[of g "CHR ''A''" p s po] by blast
  have "process_autocatalytic_set (Suc d) st = Inl (KeyError ''Product'')"
    using df by (rule process_autocatalytic_set_no_columns)
  then have "list_trials (Suc d) (Suc 0) g (init_AssemblyAnalysis ''A'' 1 p s mode po) []
      = Inl (KeyError ''Product'')"
    using b by (simp add: init_AssemblyAnalysis_def)
  then have "find_assembly_list (Suc d) g (init_AssemblyAnalysis ''A'' 1 p s mode po)
     = Inl (KeyError ''Product'')"
    by (simp add: find_assembly_list_def init_AssemblyAnalysis_def)
  then show ?thesis using b r df by blast
qed

text \<open>
  C5, as amended. For every non-empty final product, every random source and every
  configuration, every constituent of two or more characters of a reaction of the
  generated set is the product of at least one reaction of the set.
\<close>

theorem composite_constituent_is_produced:
  assumes "fp \<noteq> []"
  shows "\<exists>st g'. build_reactions (init_AutocatalyticSet g fp p s po) = Inr (st, g') \<and>
     (\<forall>r\<in>set (reactions st). \<forall>c\<in>{Constituent_1 r, Constituent_2 r}.
        1 < length c \<longrightarrow> (\<exists>r'\<in>set (reactions st). Product r' = c))"
proof -
  obtain st g' where b: "build_reactions (init_AutocatalyticSet g fp p s po) = Inr (st, g')"
    and t: "tree_rows fp 0 (map uncatalysed (reactions st))"
    using build_reactions_rows[OF assms, of g p s po] by blast
  have "\<exists>r'\<in>set (reactions st). Product r' = c"
    if r: "r \<in> set (reactions st)" and c: "c \<in> {Constituent_1 r, Constituent_2 r}"
      and l: "1 < length c" for r c
  proof -
    have "uncatalysed r \<in> set (map uncatalysed (reactions st))" using r by simp
    moreover have "c = Constituent_1 (uncatalysed r) \<or> c = Constituent_2 (uncatalysed r)"
      using c by auto
    ultimately obtain r' where "r' \<in> set (map uncatalysed (reactions st))" "Product r' = c"
      using tree_rows_composite[OF t] l by (metis Suc_1 Suc_leI)
    then show ?thesis by auto
  qed
  then show ?thesis using b by blast
qed



theorem composite_constituent_is_produced_witness:
  "''ABC'' \<noteq> [] \<and>
   (\<exists>st g'. build_reactions (init_AutocatalyticSet (\<lambda>i. 0) ''ABC'' 1 0 False) = Inr (st, g') \<and>
      list_all (\<lambda>r. list_all (\<lambda>c. length c \<le> 1 \<or> list_ex (\<lambda>r'. Product r' = c) (reactions st))
                        [Constituent_1 r, Constituent_2 r]) (reactions st))"
  using composite_constituent_is_produced[of "''ABC''" "\<lambda>i. 0" 1 0 False]
  by (simp add: list_all_iff list_ex_iff not_less[symmetric])



text \<open>
  C5 as stated fails at the final product \<open>AAAA\<close> when the root is split in the
  middle (every raw draw is 1, so \<^verbatim>\<open>randint(1, 3)\<close> gives 2): both halves are \<open>AA\<close>,
  each is split by its own call, and the set holds two distinct reactions (numbers 0
  and 1) with the product \<open>AA\<close>.
\<close>

theorem composite_constituent_is_produced_counterexample:
  "map_sum id (\<lambda>sg. map (\<lambda>r. (Reaction r, Constituent_1 r, Constituent_2 r, Product r))
                     (reactions (fst sg)))
     (build_reactions
        (init_AutocatalyticSet (\<lambda>i. 1) ''AAAA'' 0 0 False))
   = Inr [(0, ''A'', ''A'', ''AA''), (1, ''A'', ''A'', ''AA''), (2, ''AA'', ''AA'', ''AAAA'')]"
  by (simp add: eval_defs)

text \<open>
  C10. For a strategy id other than 0, 1 and 2, \<^verbatim>\<open>assign_catalysts\<close> returns normally
  and leaves the set and the random source as they were; the network built for a
  non-empty final product then has the empty catalyst in every reaction.
\<close>

theorem unknown_strategy_assigns_nothing:
  assumes "s \<noteq> 0" "s \<noteq> 1" "s \<noteq> 2"
  shows "(switch_cat (fst sg) = s \<longrightarrow> assign_catalysts sg = Inr sg) \<and>
     (fp \<noteq> [] \<longrightarrow>
        (\<exists>st g'. build_reactions (init_AutocatalyticSet g fp p s po) = Inr (st, g') \<and>
           (\<forall>r\<in>set (reactions st). Catalyst r = [])))"
proof (intro conjI impI)
  assume "switch_cat (fst sg) = s"
  then show "assign_catalysts sg = Inr sg"
    using assms by (intro assign_catalysts_unknown) simp_all
next
  assume ne: "fp \<noteq> []"
  obtain st g' where b: "build_reactions (init_AutocatalyticSet g fp p s po) = Inr (st, g')"
    and t: "tree_rows fp 0 (reactions st)"
    using build_reactions_unknown[OF ne assms, of g p po] by blast
  have "\<forall>r\<in>set (reactions st). Catalyst r = []"
    using tree_rows_catalyst[OF t] by blast
  then show "\<exists>st g'. build_reactions (init_AutocatalyticSet g fp p s po) = Inr (st, g') \<and>
           (\<forall>r\<in>set (reactions st). Catalyst r = [])"
    using b by blast
qed


theorem unknown_strategy_assigns_nothing_witness:
  "(7::int) \<noteq> 0 \<and> (7::int) \<noteq> 1 \<and> (7::int) \<noteq> 2 \<and> ''AB'' \<noteq> [] \<and>
   switch_cat (fst (init_AutocatalyticSet (\<lambda>i. 0) ''AB'' 1 7 False)) = 7 \<and>
   assign_catalysts (init_AutocatalyticSet (\<lambda>i. 0) ''AB'' 1 7 False)
     = Inr (init_AutocatalyticSet (\<lambda>i. 0) ''AB'' 1 7 False) \<and>
   (\<exists>st g'. build_reactions (init_AutocatalyticSet (\<lambda>i. 0) ''AB'' 1 7 False) = Inr (st, g') \<and>
      list_all (\<lambda>r. Catalyst r = []) (reactions st))"
proof -
  have n: "(7::int) \<noteq> 0" "(7::int) \<noteq> 1" "(7::int) \<noteq> 2" by simp_all
  have sc: "switch_cat (fst (init_AutocatalyticSet (\<lambda>i. 0) ''AB'' 1 7 False)) = 7"
    by (simp add: init_AutocatalyticSet_def)
  have ne: "''AB'' \<noteq> []" by simp
  note th = unknown_strategy_assigns_nothing[OF n,
      of "init_AutocatalyticSet (\<lambda>i. 0) ''AB'' 1 7 False" "''AB''" "\<lambda>i. 0" 1 False]
  have a: "assign_catalysts (init_AutocatalyticSet (\<lambda>i. 0) ''AB'' 1 7 False)
     = Inr (init_AutocatalyticSet (\<lambda>i. 0) ''AB'' 1 7 False)"
    using th sc by blast
  have b: "\<exists>st g'. build_reactions (init_AutocatalyticSet (\<lambda>i. 0) ''AB'' 1 7 False)
        = Inr (st, g') \<and> list_all (\<lambda>r. Catalyst r = []) (reactions st)"
    using th ne unfolding list_all_iff by blast
  show ?thesis using n sc ne a b by blast
qed

text \<open>
  C7. On a non-empty table, with \<^verbatim>\<open>check_for_catalysts\<close> true, the check returns false
  when \<open>C\<close> is empty, false when some member of \<open>C\<close> is not in \<open>U\<close>, and true in every
  other case.
\<close>

theorem is_autocatalytic_subnetwork_rule:
  assumes "rs \<noteq> []"
  shows "(spec_catalysts rs = {} \<longrightarrow>
            is_autocatalytic_subnetwork (pd_DataFrame rs) True = Inr False) \<and>
         (\<not> spec_catalysts rs \<subseteq> spec_symbols rs \<longrightarrow>
            is_autocatalytic_subnetwork (pd_DataFrame rs) True = Inr False) \<and>
         (spec_catalysts rs \<noteq> {} \<and> spec_catalysts rs \<subseteq> spec_symbols rs \<longrightarrow>
            is_autocatalytic_subnetwork (pd_DataFrame rs) True = Inr True)"
proof -
  have "pd_DataFrame rs = DataFrame True rs" using assms by (simp add: pd_DataFrame_def)
  then show ?thesis by (simp add: is_autocatalytic_subnetwork_sets)
qed


theorem is_autocatalytic_subnetwork_rule_witness:
  "is_autocatalytic_subnetwork
     (pd_DataFrame [\<lparr>Reaction = 0, Layer = 0, Constituent_1 = ''A'', Constituent_2 = ''B'',
                     Catalyst = ''A'', Product = ''AB''\<rparr>]) True = Inr True \<and>
   is_autocatalytic_subnetwork
     (pd_DataFrame [\<lparr>Reaction = 0, Layer = 0, Constituent_1 = ''A'', Constituent_2 = ''B'',
                     Catalyst = [], Product = ''AB''\<rparr>]) True = Inr False \<and>
   is_autocatalytic_subnetwork
     (pd_DataFrame [\<lparr>Reaction = 0, Layer = 0, Constituent_1 = ''A'', Constituent_2 = ''B'',
                     Catalyst = ''C'', Product = ''AB''\<rparr>]) True = Inr False"
proof -
  let ?t = "[\<lparr>Reaction = 0, Layer = 0, Constituent_1 = ''A'', Constituent_2 = ''B'',
                     Catalyst = ''A'', Product = ''AB''\<rparr>]"
  let ?e = "[\<lparr>Reaction = 0, Layer = 0, Constituent_1 = ''A'', Constituent_2 = ''B'',
                     Catalyst = [], Product = ''AB''\<rparr>]"
  let ?x = "[\<lparr>Reaction = 0, Layer = 0, Constituent_1 = ''A'', Constituent_2 = ''B'',
                     Catalyst = ''C'', Product = ''AB''\<rparr>]"
  have t: "spec_catalysts ?t \<noteq> {} \<and> spec_catalysts ?t \<subseteq> spec_symbols ?t"
    by (simp add: spec_catalysts_def spec_symbols_def)
  have e: "spec_catalysts ?e = {}"
    by (simp add: spec_catalysts_def)
  have x: "\<not> spec_catalysts ?x \<subseteq> spec_symbols ?x"
    by (simp add: spec_catalysts_def spec_symbols_def)
  have "is_autocatalytic_subnetwork (pd_DataFrame ?t) True = Inr True"
    using is_autocatalytic_subnetwork_rule[of ?t] t by blast
  moreover have "is_autocatalytic_subnetwork (pd_DataFrame ?e) True = Inr False"
    using is_autocatalytic_subnetwork_rule[of ?e] e by blast
  moreover have "is_autocatalytic_subnetwork (pd_DataFrame ?x) True = Inr False"
    using is_autocatalytic_subnetwork_rule[of ?x] x by blast
  ultimately show ?thesis by blast
qed

text \<open>
  C4 fails on the code. The draw is compared with \<^verbatim>\<open><=\<close>: for the final product \<open>AB\<close>,
  probability 0 and strategy 0, a random source whose draws are all 0 makes
  \<^verbatim>\<open>random.random()\<close> return 0.0, \<open>0.0 <= 0.0\<close> holds, and the one reaction is given
  the catalyst \<open>AB\<close>, the only candidate that is not one of its constituents.
\<close>

theorem probability_zero_assigns_catalyst:
  "fst (random_random (\<lambda>i. 0)) = 0 \<and>
   map_sum id (\<lambda>sg. map (\<lambda>r. (Constituent_1 r, Constituent_2 r, Catalyst r, Product r))
                     (reactions (fst sg)))
     (build_reactions (init_AutocatalyticSet (\<lambda>i. 0) ''AB'' 0 0 False))
   = Inr [(''A'', ''B'', ''AB'', ''AB'')]"
  by (simp add: eval_defs)

text \<open>
  C2 as stated fails: nothing validates the configuration. With probability 3/2,
  strategy id 7 and the amplification value \<^verbatim>\<open>"cube"\<close>, \<^verbatim>\<open>find_assembly_list\<close> runs its
  trial on \<open>AB\<close> and returns the contribution list \<open>[1]\<close> with the three per-trial
  lists.
\<close>

theorem invalid_configuration_runs_counterexample:
  "find_assembly_list 3 (\<lambda>i. 0)
     (init_AssemblyAnalysis ''AB'' 1 (3 / 2) 7 (PyStr ''cube'') False)
   = Inr ([1], [0], [0], [1])"
  by (simp add: eval_defs eval_analysis_defs)


text \<open>
  C2, as amended. The constructor stores its arguments and no operation checks them.
  With no trial to run, \<^verbatim>\<open>find_assembly_list\<close> returns empty lists for every
  configuration, an empty final product included. For a final product of two or more
  characters it runs all \<open>n\<close> trials and returns, for every probability, every strategy
  id and every amplification value. An empty final product fails only inside the first
  trial, with the \<open>ValueError\<close> that \<^verbatim>\<open>randint\<close> raises on the empty range.
\<close>

theorem no_configuration_validation:
  "find_assembly_list depth g (init_AssemblyAnalysis fp 0 p s mode po) = Inr ([], [], [], []) \<and>
   (1 \<le> n \<longrightarrow>
      find_assembly_list depth g (init_AssemblyAnalysis [] n p s mode po)
        = Inl (ValueError ''empty range for randrange()'')) \<and>
   (2 \<le> length fp \<and> length fp < depth \<longrightarrow>
      (\<exists>out scs acs mds.
         find_assembly_list depth g (init_AssemblyAnalysis fp n p s mode po)
           = Inr (out, scs, acs, mds) \<and> length mds = n))"
proof (intro conjI impI)
  show "find_assembly_list depth g (init_AssemblyAnalysis fp 0 p s mode po)
      = Inr ([], [], [], [])"
    by (simp add: find_assembly_list_def init_AssemblyAnalysis_def)
next
  assume "1 \<le> n"
  then obtain k where k: "n = Suc k" by (cases n) auto
  let ?a = "init_AssemblyAnalysis [] (Suc k) p s mode po"
  have an: "a_n ?a = Suc k"
    by (simp add: init_AssemblyAnalysis_def)
  have l: "list_trials depth (Suc k) g ?a []
      = Inl (ValueError ''empty range for randrange()'')"
    by (simp add: init_AssemblyAnalysis_def build_reactions_empty)
  show "find_assembly_list depth g (init_AssemblyAnalysis [] n p s mode po)
        = Inl (ValueError ''empty range for randrange()'')"
    unfolding k find_assembly_list_def an l by simp
next
  assume h: "2 \<le> length fp \<and> length fp < depth"
  let ?a = "init_AssemblyAnalysis fp n p s mode po"
  have f: "a_final_product ?a = fp" and m: "max_depths ?a = []" and an: "a_n ?a = n"
    by (simp_all add: init_AssemblyAnalysis_def)
  obtain out a' g' where l: "list_trials depth n g ?a [] = Inr (out, a', g')"
    and len: "length (max_depths a') = length (max_depths ?a) + n"
    using list_trials_ok[of ?a depth n g "[]"] h f by auto
  have "find_assembly_list depth g ?a
      = Inr (out, subnetwork_counts a', autocatalytic_subnetwork_counts a', max_depths a')"
    unfolding find_assembly_list_def an l by simp
  then show "\<exists>out scs acs mds.
         find_assembly_list depth g (init_AssemblyAnalysis fp n p s mode po)
           = Inr (out, scs, acs, mds) \<and> length mds = n"
    using len m by auto
qed

theorem no_configuration_validation_witness:
  "(1::nat) \<le> 1 \<and> 2 \<le> length ''AB'' \<and> length ''AB'' < (3::nat) \<and>
   find_assembly_list 3 (\<lambda>i. 0) (init_AssemblyAnalysis ([] :: string) 1 (- 1) 7 PyNone False)
     = Inl (ValueError ''empty range for randrange()'') \<and>
   (\<exists>out scs acs mds.
      find_assembly_list 3 (\<lambda>i. 0) (init_AssemblyAnalysis ''AB'' 1 (- 1) 7 PyNone False)
        = Inr (out, scs, acs, mds) \<and> length mds = 1)"
proof -
  have a: "(1::nat) \<le> 1" and b: "2 \<le> length ''AB'' \<and> length ''AB'' < (3::nat)"
    by simp_all
  from no_configuration_validation[of 3 "\<lambda>i. 0" "''AB''" "- 1" 7 PyNone False 1] a b
  show ?thesis
    by blast
qed

end
